theory Spec2Isabelle
  imports
    Complex_Main
    "HOL-Library.AList"
    "HOL-Library.Char_ord"
    "HOL-Library.List_Lexorder"
    "HOL-Library.Product_Lexorder"
begin

section \<open>The tag taxonomy of utopia\_flask\<close>

text \<open>
  A shallow embedding of \<^verbatim>\<open>app/models/tag.py\<close>, \<^verbatim>\<open>app/services/tag_tree_service.py\<close>
  and \<^verbatim>\<open>AITagMapper._score_candidates\<close> of \<^verbatim>\<open>app/utils/ai_mapping.py\<close>.

  The table \<^verbatim>\<open>tags\<close> is a list of rows in the order the database returns them, the
  table \<^verbatim>\<open>entry_tags\<close> a list of (entry id, tag id) pairs. A service method takes the
  database state and returns either an error (the method returned \<^verbatim>\<open>False\<close> with a
  message, after a rollback) or the committed state. Python strings are lists of
  characters; the numeric columns and the Python floats computed from them are exact
  rationals, so rounding is not part of the model; where the code computes with a
  numeric column, the model tells its \<^verbatim>\<open>Decimal\<close> from a float.
\<close>

subsection \<open>Rows\<close>

datatype tag_status = Active | Deprecated | Merged | Deleted

text \<open>
  The columns of \<^verbatim>\<open>Tag\<close> that the modelled methods read or write. Nullable text
  columns are options; \<^verbatim>\<open>aliases\<close> is a list (the code reads a missing list as the
  empty one, \<^verbatim>\<open>aliases or []\<close>); \<^verbatim>\<open>properties\<close> is an association list.
\<close>

record tag =
  tag_id :: string
  name :: string
  name_en :: "string option"
  description :: "string option"
  parent_id :: "string option"
  level :: int
  path :: "string option"
  category :: "string option"
  domain :: "string option"
  is_abstract :: bool
  is_system :: bool
  status :: tag_status
  quality_score :: rat
  usage_count :: int
  popularity_score :: rat
  aliases :: "string list"
  properties :: "(string \<times> string) list"
  created_by :: string

text \<open>One row of \<^verbatim>\<open>tag_history\<close>: the tag, the action and the acting user.\<close>

record history_entry =
  h_tag_id :: string
  h_action :: string
  h_user_id :: string

record db =
  tags :: "tag list"
  entry_tags :: "(string \<times> string) list"
  history :: "history_entry list"

text \<open>
  The outcomes with \<^verbatim>\<open>success = False\<close>, one per message of the service; the last two
  are the handlers of \<^verbatim>\<open>IntegrityError\<close> and of any other exception.
\<close>

datatype error =
    EmptyName
  | NameExists
  | ParentNotFound
  | TagNotFound
  | NewParentNotFound
  | CycleRejected
  | SameTag
  | IntegrityFailure
  | OperationFailed

subsection \<open>Queries and relationships\<close>

text \<open>\<^verbatim>\<open>Tag.query.filter_by(id=i, status='active').first()\<close>\<close>

definition active_by_id :: "tag list \<Rightarrow> string \<Rightarrow> tag option" where
  "active_by_id ts i = find (\<lambda>t. tag_id t = i \<and> status t = Active) ts"

text \<open>\<^verbatim>\<open>Tag.query.filter_by(name=n, status='active').first()\<close>\<close>

definition active_by_name :: "tag list \<Rightarrow> string \<Rightarrow> tag option" where
  "active_by_name ts n = find (\<lambda>t. name t = n \<and> status t = Active) ts"

text \<open>The relationship \<^verbatim>\<open>parent\<close>: the row that \<^verbatim>\<open>parent_id\<close> refers to, of any status.\<close>

definition parent :: "tag list \<Rightarrow> tag \<Rightarrow> tag option" where
  "parent ts t = (case parent_id t of None \<Rightarrow> None
                  | Some p \<Rightarrow> find (\<lambda>u. tag_id u = p) ts)"

text \<open>The backref \<^verbatim>\<open>children\<close>: every row whose \<^verbatim>\<open>parent_id\<close> is this row's id.\<close>

definition children :: "tag list \<Rightarrow> tag \<Rightarrow> tag list" where
  "children ts t = filter (\<lambda>c. parent_id c = Some (tag_id t)) ts"

text \<open>Writing one row back: the row with the same primary key is replaced.\<close>

definition put :: "tag \<Rightarrow> tag list \<Rightarrow> tag list" where
  "put t ts = map (\<lambda>u. if tag_id u = tag_id t then t else u) ts"

subsection \<open>\<^verbatim>\<open>Tag.increment_usage\<close>\<close>

definition increment_usage :: "tag \<Rightarrow> tag" where
  "increment_usage t =
     (let u = usage_count t + 1
      in t\<lparr>usage_count := u, popularity_score := of_int u * (1 / 10)\<rparr>)"

subsection \<open>\<^verbatim>\<open>TagTreeService._record_history\<close>\<close>

definition record_history :: "string \<Rightarrow> string \<Rightarrow> string \<Rightarrow> db \<Rightarrow> db" where
  "record_history i action user d =
     d\<lparr>history := history d @ [\<lparr>h_tag_id = i, h_action = action, h_user_id = user\<rparr>]\<rparr>"

subsection \<open>\<^verbatim>\<open>TagTreeService.merge_tags\<close>\<close>

text \<open>
  The bulk update of \<^verbatim>\<open>entry_tags\<close> rewrites every reference to the source. The
  primary key of that table is the pair (entry id, tag id), so the update is refused
  when an entry carries both tags; the handler then rolls back.
  The merged alias list is built from a Python set, whose order is not specified; the
  model keeps the first occurrence of each alias.
\<close>

text \<open>
  \<^verbatim>\<open>properties\<close> is a plain \<^verbatim>\<open>JSONB\<close> column, so a write into the dictionary is not
  seen by the session. \<^verbatim>\<open>source_tag.properties = source_tag.properties or {}\<close> stores a
  new dictionary only when the old one is empty or missing; only then does
  \<^verbatim>\<open>merged_to\<close> reach the table.
\<close>

definition merged_properties :: "string \<Rightarrow> (string \<times> string) list \<Rightarrow> (string \<times> string) list" where
  "merged_properties target_tag_id props =
     (if props = [] then AList.update ''merged_to'' target_tag_id [] else props)"

text \<open>
  \<^verbatim>\<open>popularity_score\<close> is \<^verbatim>\<open>Numeric(5, 2)\<close>: the database refuses a value of 1000 or
  more (in absolute value) when the row is flushed.
\<close>

definition popularity_fits :: "tag \<Rightarrow> bool" where
  "popularity_fits t = (\<bar>popularity_score t\<bar> < 1000)"

definition rewrite_entry_tags :: "string \<Rightarrow> string \<Rightarrow> (string \<times> string) list \<Rightarrow> (string \<times> string) list" where
  "rewrite_entry_tags src tgt ets = map (\<lambda>(e, g). if g = src then (e, tgt) else (e, g)) ets"

definition merge_tags :: "db \<Rightarrow> string \<Rightarrow> string \<Rightarrow> string \<Rightarrow> error + db" where
  "merge_tags d source_tag_id target_tag_id user_id =
     (case (active_by_id (tags d) source_tag_id, active_by_id (tags d) target_tag_id) of
        (Some source_tag, Some target_tag) \<Rightarrow>
          if tag_id source_tag = tag_id target_tag then Inl SameTag
          else
            let ets = rewrite_entry_tags source_tag_id target_tag_id (entry_tags d) in
            if \<not> distinct ets then Inl OperationFailed
            else
              let t1 = increment_usage
                         (target_tag\<lparr>usage_count := usage_count target_tag + usage_count source_tag\<rparr>);
                  t2 = (if aliases source_tag \<noteq> []
                        then t1\<lparr>aliases := remdups (aliases t1 @ aliases source_tag)\<rparr>
                        else t1);
                  s1 = source_tag\<lparr>status := Merged,
                         properties := merged_properties target_tag_id (properties source_tag)\<rparr>
              in if \<not> popularity_fits t2 then Inl OperationFailed
                 else Inr (record_history source_tag_id ''merge'' user_id
                             (d\<lparr>tags := put s1 (put t2 (tags d)), entry_tags := ets\<rparr>))
      | _ \<Rightarrow> Inl TagNotFound)"

subsection \<open>\<^verbatim>\<open>Tag.get_ancestors\<close> and \<^verbatim>\<open>Tag.can_be_parent_of\<close>\<close>

text \<open>
  \<^verbatim>\<open>get_ancestors\<close> is a \<^verbatim>\<open>while current:\<close> loop over the parent pointers. Nothing in
  the code bounds it, so the model is a partial function: \<open>None\<close> means that the loop
  does not end.
\<close>

partial_function (option) ancestors_loop :: "tag list \<Rightarrow> tag list \<Rightarrow> tag option \<Rightarrow> tag list option" where
  "ancestors_loop ts ancestors current =
     (case current of
        None \<Rightarrow> Some ancestors
      | Some c \<Rightarrow> ancestors_loop ts (ancestors @ [c]) (parent ts c))"

declare ancestors_loop.simps [code]

definition get_ancestors :: "tag list \<Rightarrow> tag \<Rightarrow> tag list option" where
  "get_ancestors ts self = ancestors_loop ts [] (parent ts self)"

text \<open>
  \<^verbatim>\<open>other_tag in ancestors\<close> compares mapped objects, and the session holds one object
  for each primary key: membership is membership of the id.
\<close>

definition can_be_parent_of :: "tag list \<Rightarrow> tag \<Rightarrow> tag \<Rightarrow> bool option" where
  "can_be_parent_of ts self other_tag =
     (if tag_id self = tag_id other_tag then Some False
      else case get_ancestors ts self of
             None \<Rightarrow> None
           | Some ancestors \<Rightarrow> Some (tag_id other_tag \<notin> set (map tag_id ancestors)))"

subsection \<open>\<^verbatim>\<open>Tag.update_path\<close>\<close>

text \<open>A loop over a list whose body may fail: the first failure ends it.\<close>

fun fold_option :: "('a \<Rightarrow> 'b \<Rightarrow> 'b option) \<Rightarrow> 'a list \<Rightarrow> 'b \<Rightarrow> 'b option" where
  "fold_option f [] s = Some s"
| "fold_option f (x # xs) s = (case f x s of None \<Rightarrow> None | Some s' \<Rightarrow> fold_option f xs s')"

text \<open>The f-string \<^verbatim>\<open>f"{self.parent.path}/{self.name}"\<close> prints a missing path as \<^verbatim>\<open>None\<close>.\<close>

definition path_str :: "string option \<Rightarrow> string" where
  "path_str p = (case p of None \<Rightarrow> ''None'' | Some s \<Rightarrow> s)"

definition new_path :: "tag list \<Rightarrow> tag \<Rightarrow> string" where
  "new_path ts self =
     (case parent ts self of
        None \<Rightarrow> name self
      | Some p \<Rightarrow> path_str (path p) @ ''/'' @ name self)"

text \<open>
  \<^verbatim>\<open>update_path\<close> calls itself on every child. The first argument is the number of
  nested calls the interpreter still allows; at \<open>0\<close> Python raises \<^verbatim>\<open>RecursionError\<close>,
  which is the result \<open>None\<close>. The row is addressed by its id, as the mapped object is.
\<close>

fun update_path :: "nat \<Rightarrow> string \<Rightarrow> tag list \<Rightarrow> tag list option" where
  "update_path 0 i ts = None"
| "update_path (Suc n) i ts =
     (case find (\<lambda>t. tag_id t = i) ts of
        None \<Rightarrow> Some ts
      | Some self \<Rightarrow>
          let ts1 = put (self\<lparr>path := Some (new_path ts self)\<rparr>) ts
          in fold_option (\<lambda>c. update_path n (tag_id c)) (children ts1 self) ts1)"

subsection \<open>\<^verbatim>\<open>TagTreeService.move_tag\<close>\<close>

text \<open>Python's truth value of an optional string: \<^verbatim>\<open>None\<close> and \<^verbatim>\<open>''\<close> are false.\<close>

definition truthy :: "string option \<Rightarrow> bool" where
  "truthy s = (s \<noteq> None \<and> s \<noteq> Some [])"

text \<open>
  The foreign key \<^verbatim>\<open>tags.parent_id \<rightarrow> tags.id\<close>, checked by the database when the
  session flushes.
\<close>

definition fk_ok :: "tag list \<Rightarrow> string option \<Rightarrow> bool" where
  "fk_ok ts p = (case p of None \<Rightarrow> True | Some i \<Rightarrow> i \<in> set (map tag_id ts))"

text \<open>
  The declared width \<^verbatim>\<open>String(1000)\<close> of \<^verbatim>\<open>path\<close>: the database refuses a longer
  value when the rewritten rows are flushed.
\<close>

definition paths_ok :: "tag list \<Rightarrow> bool" where
  "paths_ok ts = list_all (\<lambda>t. case path t of None \<Rightarrow> True | Some s \<Rightarrow> length s \<le> 1000) ts"

text \<open>
  The part of \<^verbatim>\<open>move_tag\<close> after the checks. An exception (a refused flush, a
  \<^verbatim>\<open>RecursionError\<close>) reaches the handler, which rolls back.
\<close>

definition move_commit :: "nat \<Rightarrow> db \<Rightarrow> tag \<Rightarrow> string option \<Rightarrow> tag option \<Rightarrow> string \<Rightarrow> error + db" where
  "move_commit limit d tag new_parent_id new_parent user_id =
     (let tag1 = tag\<lparr>parent_id := new_parent_id,
                     level := (case new_parent of Some p \<Rightarrow> level p + 1 | None \<Rightarrow> 0)\<rparr>;
          ts1 = put tag1 (tags d)
      in if \<not> fk_ok ts1 new_parent_id then Inl OperationFailed
         else case update_path limit (tag_id tag1) ts1 of
                None \<Rightarrow> Inl OperationFailed
              | Some ts2 \<Rightarrow>
                  if \<not> paths_ok ts2 then Inl OperationFailed
                  else Inr (record_history (tag_id tag) ''move'' user_id (d\<lparr>tags := ts2\<rparr>)))"

text \<open>The outer \<open>None\<close> is a call that never returns (the ancestor walk does not end).\<close>

definition move_tag :: "nat \<Rightarrow> db \<Rightarrow> string \<Rightarrow> string option \<Rightarrow> string \<Rightarrow> (error + db) option" where
  "move_tag limit d i new_parent_id user_id =
     (case active_by_id (tags d) i of
        None \<Rightarrow> Some (Inl TagNotFound)
      | Some tag \<Rightarrow>
          if truthy new_parent_id then
            (case active_by_id (tags d) (the new_parent_id) of
               None \<Rightarrow> Some (Inl NewParentNotFound)
             | Some new_parent \<Rightarrow>
                 (case can_be_parent_of (tags d) new_parent tag of
                    None \<Rightarrow> None
                  | Some False \<Rightarrow> Some (Inl CycleRejected)
                  | Some True \<Rightarrow> Some (move_commit limit d tag new_parent_id (Some new_parent) user_id)))
          else Some (move_commit limit d tag new_parent_id None user_id))"

subsection \<open>\<^verbatim>\<open>TagTreeService.create_tag\<close>\<close>

text \<open>\<^verbatim>\<open>str.strip()\<close>: the white space characters of Python among the first 256 code points.\<close>

definition py_isspace :: "char \<Rightarrow> bool" where
  "py_isspace c = ((of_char c :: nat) \<in> {9, 10, 11, 12, 13, 28, 29, 30, 31, 32, 133, 160})"

definition strip :: "string \<Rightarrow> string" where
  "strip s = rev (dropWhile py_isspace (rev (dropWhile py_isspace s)))"

text \<open>The arguments of \<^verbatim>\<open>create_tag\<close>; a missing list or dictionary is the empty one.\<close>

record create_args =
  c_name :: string
  c_user_id :: string
  c_parent_id :: "string option"
  c_description :: string
  c_name_en :: string
  c_category :: string
  c_domain :: string
  c_is_abstract :: bool
  c_aliases :: "string list"
  c_properties :: "(string \<times> string) list"

text \<open>
  The declared widths \<^verbatim>\<open>String(100)\<close> of \<^verbatim>\<open>name\<close> and \<^verbatim>\<open>name_en\<close> and \<^verbatim>\<open>String(50)\<close> of
  \<^verbatim>\<open>category\<close> and \<^verbatim>\<open>domain\<close>: PostgreSQL refuses a longer value when the row is
  flushed. \<^verbatim>\<open>create_tag\<close> itself never looks at the length of the name.
\<close>

definition widths_ok :: "tag \<Rightarrow> bool" where
  "widths_ok t =
     (length (name t) \<le> 100 \<and>
      (case name_en t of None \<Rightarrow> True | Some s \<Rightarrow> length s \<le> 100) \<and>
      (case category t of None \<Rightarrow> True | Some s \<Rightarrow> length s \<le> 50) \<and>
      (case domain t of None \<Rightarrow> True | Some s \<Rightarrow> length s \<le> 50))"

text \<open>
  \<open>new_id\<close> is the value of \<^verbatim>\<open>str(uuid.uuid4())\<close> that the column default draws for the
  new row. The result is the committed state; the tag that the method returns with it
  is the row of that state with the id \<open>new_id\<close>.
\<close>

definition create_tag :: "nat \<Rightarrow> db \<Rightarrow> string \<Rightarrow> create_args \<Rightarrow> error + db" where
  "create_tag limit d new_id a =
     (if c_name a = [] \<or> length (strip (c_name a)) = 0 then Inl EmptyName
      else
        let nm = strip (c_name a) in
        if active_by_name (tags d) nm \<noteq> None then Inl NameExists
        else
          case (if truthy (c_parent_id a)
                then (case active_by_id (tags d) (the (c_parent_id a)) of
                        None \<Rightarrow> Inl ParentNotFound
                      | Some parent_tag \<Rightarrow> Inr (level parent_tag + 1))
                else Inr 0) of
            Inl e \<Rightarrow> Inl e
          | Inr lvl \<Rightarrow>
              let tag = \<lparr>tag_id = new_id, name = nm, name_en = Some (c_name_en a),
                         description = Some (c_description a), parent_id = c_parent_id a,
                         level = lvl, path = None, category = Some (c_category a),
                         domain = Some (c_domain a), is_abstract = c_is_abstract a,
                         is_system = False, status = Active, quality_score = 5,
                         usage_count = 0, popularity_score = 0, aliases = c_aliases a,
                         properties = c_properties a, created_by = c_user_id a\<rparr>
              in if \<not> widths_ok tag then Inl OperationFailed
                 else if new_id \<in> set (map tag_id (tags d)) \<or> \<not> fk_ok (tags d) (c_parent_id a)
                   then Inl IntegrityFailure
                 else case update_path limit new_id (tags d @ [tag]) of
                        None \<Rightarrow> Inl OperationFailed
                      | Some ts \<Rightarrow>
                          if \<not> paths_ok ts then Inl OperationFailed
                          else Inr (record_history new_id ''create'' (c_user_id a) (d\<lparr>tags := ts\<rparr>)))"

text \<open>
  The explicit length check of the sibling \<^verbatim>\<open>TagService.create_tag\<close>
  (\<^verbatim>\<open>if len(name) > 100: return False, ...\<close>), which comes after its check for an
  empty name and before any write.
\<close>

definition tag_service_name_check :: "string \<Rightarrow> bool" where
  "tag_service_name_check nm =
     (\<not> (nm = [] \<or> length (strip nm) = 0) \<and> \<not> length nm > 100)"

subsection \<open>Sequences of create and move\<close>

datatype op = Create string create_args | Move string "string option" string

text \<open>A failed operation has rolled back: the next one starts from the same state.\<close>

definition run_op :: "nat \<Rightarrow> op \<Rightarrow> db \<Rightarrow> db option" where
  "run_op limit o1 d =
     (case o1 of
        Create i a \<Rightarrow> Some (case create_tag limit d i a of Inl e \<Rightarrow> d | Inr d' \<Rightarrow> d')
      | Move i p u \<Rightarrow>
          (case move_tag limit d i p u of
             None \<Rightarrow> None
           | Some r \<Rightarrow> Some (case r of Inl e \<Rightarrow> d | Inr d' \<Rightarrow> d')))"

definition run_ops :: "nat \<Rightarrow> op list \<Rightarrow> db \<Rightarrow> db option" where
  "run_ops limit ops d = fold_option (run_op limit) ops d"

subsection \<open>The invariant of the table\<close>

text \<open>
  The edges child \<open>\<rightarrow>\<close> parent of the table, and what the database and the id generator
  guarantee of it: the primary key, non-empty ids, the foreign key of \<^verbatim>\<open>parent_id\<close>,
  and that no tag is its own ancestor.
\<close>

definition parent_rel :: "tag list \<Rightarrow> (string \<times> string) set" where
  "parent_rel ts = {(tag_id t, p) |t p. t \<in> set ts \<and> parent_id t = Some p}"

definition wf_store :: "tag list \<Rightarrow> bool" where
  "wf_store ts =
     (distinct (map tag_id ts) \<and> [] \<notin> set (map tag_id ts) \<and>
      (\<forall>t \<in> set ts. fk_ok ts (parent_id t)) \<and>
      acyclic (parent_rel ts))"

text \<open>
  The test of the specification: the walk up from every tag ends, and the tag is not
  among the ancestors it finds.
\<close>

definition no_self_ancestor :: "tag list \<Rightarrow> bool" where
  "no_self_ancestor ts =
     (\<forall>t \<in> set ts. case get_ancestors ts t of
                      None \<Rightarrow> False
                    | Some ancestors \<Rightarrow> tag_id t \<notin> set (map tag_id ancestors))"

text \<open>Path and level agree with the parent, for the rows of a given list.\<close>

definition path_consistent :: "tag list \<Rightarrow> tag \<Rightarrow> bool" where
  "path_consistent ts t = (path t = Some (new_path ts t))"

definition level_consistent :: "tag list \<Rightarrow> tag \<Rightarrow> bool" where
  "level_consistent ts t =
     (level t = (case parent ts t of None \<Rightarrow> 0 | Some p \<Rightarrow> level p + 1))"

subsection \<open>The operators of the search queries\<close>

text \<open>
  SQL \<^verbatim>\<open>LIKE\<close>, pattern first: \<^verbatim>\<open>%\<close> stands for any run of characters, \<^verbatim>\<open>_\<close> for one
  character, and a backslash makes the character after it literal. \<^verbatim>\<open>ILIKE\<close> compares
  without regard to the case of the letters A to Z.
\<close>

fun like :: "string \<Rightarrow> string \<Rightarrow> bool" where
  "like [] s = (s = [])"
| "like (p # ps) s =
     (if p = CHR ''%'' then
        (like ps s \<or> (case s of [] \<Rightarrow> False | x # s' \<Rightarrow> like (p # ps) s'))
      else if p = CHR 0x5C then
        (case ps of
           [] \<Rightarrow> False
         | q # qs \<Rightarrow> (case s of [] \<Rightarrow> False | x # s' \<Rightarrow> x = q \<and> like qs s'))
      else
        (case s of [] \<Rightarrow> False | x # s' \<Rightarrow> (p = CHR ''_'' \<or> p = x) \<and> like ps s'))"

definition lower_char :: "char \<Rightarrow> char" where
  "lower_char c =
     (let n = (of_char c :: nat) in if 65 \<le> n \<and> n \<le> 90 then char_of (n + 32) else c)"

definition ilike :: "string \<Rightarrow> string \<Rightarrow> bool" where
  "ilike pattern s = like (map lower_char pattern) (map lower_char s)"

text \<open>A comparison with a \<^verbatim>\<open>NULL\<close> column is not true, so the row is filtered out.\<close>

definition ilike_col :: "string \<Rightarrow> string option \<Rightarrow> bool" where
  "ilike_col pattern col = (case col of None \<Rightarrow> False | Some s \<Rightarrow> ilike pattern s)"

text \<open>\<^verbatim>\<open>keyword.strip('%')\<close>\<close>

definition strip_percent :: "string \<Rightarrow> string" where
  "strip_percent s =
     rev (dropWhile (\<lambda>c. c = CHR ''%'') (rev (dropWhile (\<lambda>c. c = CHR ''%'') s)))"

subsection \<open>\<^verbatim>\<open>TagTreeService.search_tags\<close>\<close>

text \<open>
  The methods of the read side return \<^verbatim>\<open>to_dict()\<close> of every row they select; the
  model returns the rows. Rows that the \<^verbatim>\<open>ORDER BY\<close> clause does not tell apart keep
  the order of the table, and \<^verbatim>\<open>name\<close> is compared character by character. A negative
  \<^verbatim>\<open>LIMIT\<close> is an error of the database, which the handler answers with \<^verbatim>\<open>[]\<close>.
\<close>

definition keyword_clause :: "string \<Rightarrow> tag \<Rightarrow> bool" where
  "keyword_clause kw t =
     (let keyword = ''%'' @ kw @ ''%''
      in ilike keyword (name t) \<or> ilike_col keyword (name_en t) \<or>
         ilike_col keyword (description t) \<or> strip_percent keyword \<in> set (aliases t))"

definition search_filter :: "string option \<Rightarrow> string option \<Rightarrow> string option \<Rightarrow> tag \<Rightarrow> bool" where
  "search_filter keyword cat dmn t =
     (status t = Active \<and>
      (truthy keyword \<longrightarrow> keyword_clause (the keyword) t) \<and>
      (truthy cat \<longrightarrow> category t = cat) \<and>
      (truthy dmn \<longrightarrow> domain t = dmn))"

text \<open>\<^verbatim>\<open>usage_count DESC, quality_score DESC, name\<close>\<close>

definition search_order :: "tag \<Rightarrow> int \<times> rat \<times> string" where
  "search_order t = (- usage_count t, - quality_score t, name t)"

definition limit_rows :: "int \<Rightarrow> 'a list \<Rightarrow> 'a list" where
  "limit_rows limit rows = (if limit < 0 then [] else take (nat limit) rows)"

definition search_tags :: "db \<Rightarrow> string option \<Rightarrow> string option \<Rightarrow> string option \<Rightarrow> int \<Rightarrow> tag list" where
  "search_tags d keyword cat dmn limit =
     limit_rows limit (sort_key search_order (filter (search_filter keyword cat dmn) (tags d)))"

subsection \<open>\<^verbatim>\<open>get_tag_suggestions\<close>, \<^verbatim>\<open>get_popular_tags\<close>, \<^verbatim>\<open>get_categories\<close>\<close>

definition get_tag_suggestions :: "db \<Rightarrow> string \<Rightarrow> int \<Rightarrow> tag list" where
  "get_tag_suggestions d partial_name limit =
     limit_rows limit
       (sort_key (\<lambda>t. (- usage_count t, - quality_score t))
          (filter (\<lambda>t. status t = Active \<and> ilike (partial_name @ ''%'') (name t)) (tags d)))"

definition get_popular_tags :: "db \<Rightarrow> int \<Rightarrow> tag list" where
  "get_popular_tags d limit =
     limit_rows limit
       (sort_key (\<lambda>t. (- usage_count t, - popularity_score t))
          (filter (\<lambda>t. status t = Active) (tags d)))"

text \<open>\<^verbatim>\<open>GROUP BY category\<close> over the active rows, the larger groups first.\<close>

definition get_categories :: "db \<Rightarrow> (string option \<times> nat) list" where
  "get_categories d =
     (let act = filter (\<lambda>t. status t = Active) (tags d)
      in sort_key (\<lambda>(c, n). - int n)
           (map (\<lambda>c. (c, length (filter (\<lambda>t. category t = c) act)))
                (remdups (map category act))))"

subsection \<open>\<^verbatim>\<open>Tag.get_descendants\<close> and \<^verbatim>\<open>TagTreeService._get_tag_stats\<close>\<close>

text \<open>
  \<^verbatim>\<open>_collect_descendants\<close> recurses without a depth bound (\<^verbatim>\<open>max_depth\<close> is \<^verbatim>\<open>None\<close>
  here); the first argument is again the depth the interpreter allows.
\<close>

fun collect_descendants :: "nat \<Rightarrow> tag list \<Rightarrow> tag \<Rightarrow> tag list option" where
  "collect_descendants 0 ts t = None"
| "collect_descendants (Suc n) ts t =
     fold_option
       (\<lambda>child acc. case collect_descendants n ts child of
                       None \<Rightarrow> None
                     | Some ds \<Rightarrow> Some (acc @ [child] @ ds))
       (children ts t) []"

record tag_stats =
  children_count :: nat
  stats_usage_count :: nat
  total_descendants :: nat

text \<open>
  The statistics of one tag. The method also stores the counted usage in the session's
  copy of the row; \<^verbatim>\<open>get_tag_tree\<close> never commits, so that write is not part of the
  state.
\<close>

definition get_tag_stats :: "nat \<Rightarrow> db \<Rightarrow> tag \<Rightarrow> tag_stats option" where
  "get_tag_stats limit d t =
     (case collect_descendants limit (tags d) t of
        None \<Rightarrow> None
      | Some ds \<Rightarrow>
          Some \<lparr>children_count =
                   length (filter (\<lambda>c. parent_id c = Some (tag_id t) \<and> status c = Active) (tags d)),
                stats_usage_count = length (filter (\<lambda>(e, g). g = tag_id t) (entry_tags d)),
                total_descendants = length ds\<rparr>)"

subsection \<open>\<^verbatim>\<open>TagTreeService.get_tag_tree\<close>\<close>

text \<open>
  A node of the result: the row, the key \<^verbatim>\<open>stats\<close> when asked for, and the key
  \<^verbatim>\<open>children\<close>, which is absent (\<open>None\<close>) when \<^verbatim>\<open>max_depth\<close> is not positive.
\<close>

datatype tree_node = TreeNode tag "tag_stats option" "tree_node list option"

definition node_tag :: "tree_node \<Rightarrow> tag" where
  "node_tag n = (case n of TreeNode t st cs \<Rightarrow> t)"

definition node_children :: "tree_node \<Rightarrow> tree_node list option" where
  "node_children n = (case n of TreeNode t st cs \<Rightarrow> cs)"

definition stats_for :: "nat \<Rightarrow> db \<Rightarrow> bool \<Rightarrow> tag \<Rightarrow> tag_stats option option" where
  "stats_for limit d include_stats t =
     (if include_stats then map_option Some (get_tag_stats limit d t) else Some None)"

definition active_children :: "db \<Rightarrow> tag \<Rightarrow> tag list" where
  "active_children d t =
     sort_key name (filter (\<lambda>c. parent_id c = Some (tag_id t) \<and> status c = Active) (tags d))"

text \<open>
  \<^verbatim>\<open>_build_tag_tree\<close>; the depth is \<^verbatim>\<open>max_depth\<close> as a natural number (a value below
  zero behaves as zero). \<open>None\<close> is an exception of the statistics.
\<close>

fun build_tag_tree :: "nat \<Rightarrow> db \<Rightarrow> bool \<Rightarrow> nat \<Rightarrow> tag \<Rightarrow> tree_node option" where
  "build_tag_tree limit d include_stats 0 t =
     (case stats_for limit d include_stats t of
        None \<Rightarrow> None
      | Some st \<Rightarrow> Some (TreeNode t st None))"
| "build_tag_tree limit d include_stats (Suc k) t =
     (case stats_for limit d include_stats t of
        None \<Rightarrow> None
      | Some st \<Rightarrow>
          (case those (map (build_tag_tree limit d include_stats k) (active_children d t)) of
             None \<Rightarrow> None
           | Some cs \<Rightarrow> Some (TreeNode t st (Some cs))))"

definition root_tags :: "db \<Rightarrow> string option \<Rightarrow> tag list" where
  "root_tags d root_id =
     (if truthy root_id
      then filter (\<lambda>t. tag_id t = the root_id \<and> status t = Active) (tags d)
      else sort_key name (filter (\<lambda>t. parent_id t = None \<and> status t = Active) (tags d)))"

text \<open>An exception anywhere makes the method return \<^verbatim>\<open>[]\<close>.\<close>

definition get_tag_tree :: "nat \<Rightarrow> db \<Rightarrow> string option \<Rightarrow> int \<Rightarrow> bool \<Rightarrow> tree_node list" where
  "get_tag_tree limit d root_id max_depth include_stats =
     (case those (map (build_tag_tree limit d include_stats (nat max_depth)) (root_tags d root_id)) of
        None \<Rightarrow> []
      | Some result \<Rightarrow> result)"

text \<open>All rows of a tree.\<close>

fun tree_tags :: "tree_node \<Rightarrow> tag list" where
  "tree_tags (TreeNode t st cs) =
     t # (case cs of None \<Rightarrow> [] | Some ns \<Rightarrow> concat (map tree_tags ns))"

subsection \<open>\<^verbatim>\<open>AITagMapper._score_candidates\<close>\<close>

text \<open>
  The two kinds of number that meet in the score. A confidence and the constants of the
  method are Python floats; \<^verbatim>\<open>quality_score\<close> is a \<^verbatim>\<open>Numeric(3, 2)\<close> column, which a row read
  from the table carries as a \<^verbatim>\<open>Decimal\<close>. Python divides and multiplies a float by a
  float and a \<^verbatim>\<open>Decimal\<close> by a \<^verbatim>\<open>Decimal\<close>; a \<^verbatim>\<open>Decimal\<close> with a float raises
  \<^verbatim>\<open>TypeError\<close>.
\<close>

datatype py_exception = TypeError | ZeroDivisionError

datatype py_num = PyFloat rat | PyDecimal rat

definition py_truediv :: "py_num \<Rightarrow> py_num \<Rightarrow> py_exception + py_num" where
  "py_truediv a b =
     (case (a, b) of
        (PyFloat x, PyFloat y) \<Rightarrow> if y = 0 then Inl ZeroDivisionError else Inr (PyFloat (x / y))
      | (PyDecimal x, PyDecimal y) \<Rightarrow> if y = 0 then Inl ZeroDivisionError else Inr (PyDecimal (x / y))
      | (PyFloat x, PyDecimal y) \<Rightarrow> Inl TypeError
      | (PyDecimal x, PyFloat y) \<Rightarrow> Inl TypeError)"

definition py_mul :: "py_num \<Rightarrow> py_num \<Rightarrow> py_exception + py_num" where
  "py_mul a b =
     (case (a, b) of
        (PyFloat x, PyFloat y) \<Rightarrow> Inr (PyFloat (x * y))
      | (PyDecimal x, PyDecimal y) \<Rightarrow> Inr (PyDecimal (x * y))
      | (PyFloat x, PyDecimal y) \<Rightarrow> Inl TypeError
      | (PyDecimal x, PyFloat y) \<Rightarrow> Inl TypeError)"

text \<open>
  The score of one candidate: its confidence, raised by the usage of the parent (at
  most by the factor 1.2), then \<^verbatim>\<open>score *= (parent_tag.quality_score / 10.0)\<close>.
\<close>

definition candidate_score :: "tag \<Rightarrow> rat \<Rightarrow> py_exception + py_num" where
  "candidate_score parent_tag confidence =
     (let score = confidence;
          score = (if usage_count parent_tag > 0
                   then score * min (12 / 10) (1 + of_int (usage_count parent_tag) / 100)
                   else score)
      in case py_truediv (PyDecimal (quality_score parent_tag)) (PyFloat 10) of
           Inl e \<Rightarrow> Inl e
         | Inr q \<Rightarrow> py_mul (PyFloat score) q)"

text \<open>The value of a number, for \<^verbatim>\<open>max\<close> and for the sort.\<close>

definition num_value :: "py_num \<Rightarrow> rat" where
  "num_value x = (case x of PyFloat v \<Rightarrow> v | PyDecimal v \<Rightarrow> v)"

definition py_max :: "py_num \<Rightarrow> py_num \<Rightarrow> py_num" where
  "py_max a b = (if num_value b > num_value a then b else a)"

text \<open>
  The dictionary \<^verbatim>\<open>scored\<close>, keyed by the resolved row, in insertion order; a name
  that resolves to no active tag is skipped. An exception ends the loop.
\<close>

fun score_loop :: "tag list \<Rightarrow> (string \<times> rat) list \<Rightarrow> (tag \<times> py_num) list \<Rightarrow> py_exception + (tag \<times> py_num) list" where
  "score_loop ts [] scored = Inr scored"
| "score_loop ts ((parent_name, confidence) # cs) scored =
     (case active_by_name ts parent_name of
        None \<Rightarrow> score_loop ts cs scored
      | Some parent_tag \<Rightarrow>
          (case candidate_score parent_tag confidence of
             Inl e \<Rightarrow> Inl e
           | Inr score \<Rightarrow>
               score_loop ts cs
                 (case map_of scored parent_tag of
                    Some old \<Rightarrow> AList.update parent_tag (py_max old score) scored
                  | None \<Rightarrow> scored @ [(parent_tag, score)])))"

text \<open>\<^verbatim>\<open>sorted(scored.items(), key=lambda x: x[1], reverse=True)\<close>, a stable sort.\<close>

definition score_candidates :: "tag list \<Rightarrow> (string \<times> rat) list \<Rightarrow> py_exception + (tag \<times> py_num) list" where
  "score_candidates ts candidates =
     (case score_loop ts candidates [] of
        Inl e \<Rightarrow> Inl e
      | Inr scored \<Rightarrow> Inr (sort_key (\<lambda>(t, sc). - num_value sc) scored))"

subsection \<open>Example rows\<close>

definition example_tag :: "string \<Rightarrow> string \<Rightarrow> string option \<Rightarrow> int \<Rightarrow> string \<Rightarrow> tag_status \<Rightarrow> int \<Rightarrow> tag" where
  "example_tag i n p l pa st u =
     \<lparr>tag_id = i, name = n, name_en = Some [], description = Some [], parent_id = p,
      level = l, path = Some pa, category = Some ''general'', domain = Some ''general'',
      is_abstract = False, is_system = False, status = st, quality_score = 5,
      usage_count = u, popularity_score = 0, aliases = [], properties = [],
      created_by = ''u1''\<rparr>"

text \<open>A chain \<open>A \<rightarrow> B \<rightarrow> C\<close> with consistent paths and levels.\<close>

definition chain_db :: db where
  "chain_db =
     \<lparr>tags = [example_tag ''a'' ''A'' None 0 ''A'' Active 3,
              example_tag ''b'' ''B'' (Some ''a'') 1 ''A/B'' Active 4,
              example_tag ''c'' ''C'' (Some ''b'') 2 ''A/B/C'' Active 0],
      entry_tags = [], history = []\<rparr>"

definition example_args :: "string \<Rightarrow> string option \<Rightarrow> create_args" where
  "example_args n p =
     \<lparr>c_name = n, c_user_id = ''u1'', c_parent_id = p, c_description = [], c_name_en = [],
      c_category = ''general'', c_domain = ''general'', c_is_abstract = False,
      c_aliases = [], c_properties = []\<rparr>"

definition empty_db :: db where
  "empty_db = \<lparr>tags = [], entry_tags = [], history = []\<rparr>"

text \<open>
  Five tags for the search examples: three named like \<open>cat\<close> with no usage, a much
  used \<open>Dog\<close> and a deprecated \<open>Wildcat\<close>.
\<close>

definition cats_db :: db where
  "cats_db =
     \<lparr>tags = [example_tag ''t1'' ''Catfish'' None 0 ''Catfish'' Active 0,
              example_tag ''t2'' ''Dog'' None 0 ''Dog'' Active 9,
              example_tag ''t3'' ''Category'' None 0 ''Category'' Active 0,
              example_tag ''t4'' ''Cat'' None 0 ''Cat'' Active 0,
              example_tag ''t5'' ''Wildcat'' None 0 ''Wildcat'' Deprecated 7],
      entry_tags = [], history = []\<rparr>"

definition deprecated_db :: db where
  "deprecated_db =
     \<lparr>tags = [example_tag ''t1'' ''Old'' None 0 ''Old'' Deprecated 2],
      entry_tags = [], history = []\<rparr>"

subsection \<open>The order of the search results, as the specification words it\<close>

text \<open>
  Usage count descending, then quality score descending, then name ascending: \<open>a\<close> may
  stand before \<open>b\<close>.
\<close>

definition search_before :: "tag \<Rightarrow> tag \<Rightarrow> bool" where
  "search_before a b =
     (usage_count a > usage_count b \<or>
      (usage_count a = usage_count b \<and>
       (quality_score a > quality_score b \<or>
        (quality_score a = quality_score b \<and> name a \<le> name b))))"

subsection \<open>The tree that a call is to return, as the corrected specification words it\<close>

text \<open>
  A node is expanded to depth \<open>k\<close> when it carries the statistics asked for and, for
  \<open>k = 0\<close>, no \<^verbatim>\<open>children\<close> key; for \<open>k > 0\<close>, the nodes of all active children of its
  tag, by name, each expanded to depth \<open>k - 1\<close>.
\<close>

fun well_expanded :: "nat \<Rightarrow> db \<Rightarrow> bool \<Rightarrow> nat \<Rightarrow> tree_node \<Rightarrow> bool" where
  "well_expanded limit d include_stats 0 (TreeNode t s cs) =
     (stats_for limit d include_stats t = Some s \<and> cs = None)"
| "well_expanded limit d include_stats (Suc k) (TreeNode t s cs) =
     (stats_for limit d include_stats t = Some s \<and>
      (case cs of
         None \<Rightarrow> False
       | Some ns \<Rightarrow> map node_tag ns = active_children d t \<and>
                   list_all (well_expanded limit d include_stats k) ns))"

text \<open>The root tags: no parent, active, by name.\<close>

definition all_roots :: "db \<Rightarrow> tag list" where
  "all_roots d = sort_key name (filter (\<lambda>t. parent_id t = None \<and> status t = Active) (tags d))"

subsection \<open>Rows for the scoring examples\<close>

text \<open>Two tags as they are read from the table, \<open>Animal\<close> of quality 8.00 and \<open>Plant\<close>.\<close>

definition animal_tag :: tag where
  "animal_tag = (example_tag ''t1'' ''Animal'' None 0 ''Animal'' Active 0)\<lparr>quality_score := 8\<rparr>"

definition plant_tag :: tag where
  "plant_tag = (example_tag ''t2'' ''Plant'' None 0 ''Plant'' Active 50)\<lparr>quality_score := 5\<rparr>"

subsection \<open>The ids of new tags\<close>

text \<open>
  The ids that the operations of a sequence draw for their new rows are not empty
  (they are UUIDs in text form).
\<close>

definition generated_ids_ok :: "op list \<Rightarrow> bool" where
  "generated_ids_ok ops =
     list_all (\<lambda>o1. case o1 of Create i a \<Rightarrow> i \<noteq> [] | Move i p u \<Rightarrow> True) ops"

text \<open>
  The scenario of the specification: create \<open>Animal\<close>, create \<open>Cat\<close> under it, move
  \<open>Cat\<close> to the root and back under \<open>Animal\<close>, then try to move \<open>Animal\<close> under \<open>Cat\<close>;
  and the state it leaves.
\<close>

definition scenario_ops :: "op list" where
  "scenario_ops =
     [Create ''i1'' (example_args ''Animal'' None),
      Create ''i2'' (example_args ''Cat'' (Some ''i1'')),
      Move ''i2'' None ''u1'',
      Move ''i2'' (Some ''i1'') ''u1'',
      Move ''i1'' (Some ''i2'') ''u1'']"

definition scenario_db :: db where
  "scenario_db =
     \<lparr>tags = [example_tag ''i1'' ''Animal'' None 0 ''Animal'' Active 0,
              example_tag ''i2'' ''Cat'' (Some ''i1'') 1 ''Animal/Cat'' Active 0],
      entry_tags = [],
      history = [\<lparr>h_tag_id = ''i1'', h_action = ''create'', h_user_id = ''u1''\<rparr>,
                 \<lparr>h_tag_id = ''i2'', h_action = ''create'', h_user_id = ''u1''\<rparr>,
                 \<lparr>h_tag_id = ''i2'', h_action = ''move'', h_user_id = ''u1''\<rparr>,
                 \<lparr>h_tag_id = ''i2'', h_action = ''move'', h_user_id = ''u1''\<rparr>]\<rparr>"

section \<open>Properties\<close>

subsection \<open>Rows and lookups\<close>

lemma active_by_id_SomeD:
  "active_by_id ts i = Some t \<Longrightarrow> t \<in> set ts \<and> tag_id t = i \<and> status t = Active"
  unfolding active_by_id_def by (auto simp: find_Some_iff)

lemma distinct_ids_eq:
  "distinct (map tag_id ts) \<Longrightarrow> u \<in> set ts \<Longrightarrow> t \<in> set ts \<Longrightarrow> tag_id u = tag_id t \<Longrightarrow> u = t"
  by (meson distinct_map inj_onD)

lemma put_as_map:
  assumes "distinct (map tag_id ts)" "t \<in> set ts" "tag_id t' = tag_id t"
  shows "put t' ts = map (\<lambda>u. if u = t then t' else u) ts"
  unfolding put_def using assms by (auto intro!: map_cong dest: distinct_ids_eq)

lemma zip_map_self: "(u, u') \<in> set (zip xs (map g xs)) \<Longrightarrow> u \<in> set xs \<and> u' = g u"
  by (auto simp: in_set_zip)

lemma merge_tags_InrD:
  assumes "merge_tags d src tgt user = Inr d'"
  obtains s0 t0 where "active_by_id (tags d) src = Some s0" "active_by_id (tags d) tgt = Some t0"
    "tag_id s0 \<noteq> tag_id t0"
    "distinct (rewrite_entry_tags src tgt (entry_tags d))"
    "tags d' = put (s0\<lparr>status := Merged, properties := merged_properties tgt (properties s0)\<rparr>)
        (put (if aliases s0 \<noteq> []
              then (increment_usage (t0\<lparr>usage_count := usage_count t0 + usage_count s0\<rparr>))
                     \<lparr>aliases := remdups (aliases t0 @ aliases s0)\<rparr>
              else increment_usage (t0\<lparr>usage_count := usage_count t0 + usage_count s0\<rparr>)) (tags d))"
    "entry_tags d' = rewrite_entry_tags src tgt (entry_tags d)"
  using assms unfolding merge_tags_def
  by (auto simp: Let_def record_history_def increment_usage_def split: option.splits if_splits)

subsection \<open>Merging\<close>

text \<open>
  C1. The claim: after a successful merge the usage count of the target is the sum of
  the two usage counts before it. \<^verbatim>\<open>merge_tags\<close> adds the count of the source and then
  calls \<^verbatim>\<open>increment_usage\<close>, which adds one more: merging the tag \<open>a\<close> (used 3 times)
  into the tag \<open>b\<close> (used 4 times) leaves \<open>b\<close> with the count 8, not 7.
\<close>

theorem merge_usage_count_is_sum_plus_one:
  "map_sum id (\<lambda>d'. map usage_count (tags d')) (merge_tags chain_db ''a'' ''b'' ''u1'')
     = Inr [3, 8, 0]"
  by (simp add: merge_tags_def chain_db_def example_tag_def active_by_id_def put_def
      increment_usage_def popularity_fits_def rewrite_entry_tags_def record_history_def Let_def)

text \<open>
  C9. A successful merge keeps the table row by row: every row keeps its id, parent,
  level, path and name; every row but the source keeps its status; a row that is neither
  the source nor the target is unchanged; and the target changes in its usage count,
  popularity score and aliases only. In particular a child of the source still points
  at the source.
\<close>

theorem merge_frame:
  assumes pk: "distinct (map tag_id (tags d))" and ok: "merge_tags d src tgt user = Inr d'"
  shows "length (tags d') = length (tags d) \<and>
    (\<forall>(u, u') \<in> set (zip (tags d) (tags d')).
        tag_id u' = tag_id u \<and> parent_id u' = parent_id u \<and> level u' = level u \<and>
        path u' = path u \<and> name u' = name u \<and>
        (tag_id u \<noteq> src \<longrightarrow> status u' = status u) \<and>
        (tag_id u \<noteq> src \<and> tag_id u \<noteq> tgt \<longrightarrow> u' = u) \<and>
        (tag_id u = tgt \<longrightarrow>
           u' = u\<lparr>usage_count := usage_count u', popularity_score := popularity_score u',
                  aliases := aliases u'\<rparr>))"
proof -
  from ok obtain s0 t0 s1 t2 where
    s0: "active_by_id (tags d) src = Some s0" and t0: "active_by_id (tags d) tgt = Some t0"
    and ne: "tag_id s0 \<noteq> tag_id t0"
    and s1: "s1 = s0\<lparr>status := Merged, properties := merged_properties tgt (properties s0)\<rparr>"
    and t2: "t2 = (if aliases s0 \<noteq> []
              then (increment_usage (t0\<lparr>usage_count := usage_count t0 + usage_count s0\<rparr>))
                     \<lparr>aliases := remdups (aliases t0 @ aliases s0)\<rparr>
              else increment_usage (t0\<lparr>usage_count := usage_count t0 + usage_count s0\<rparr>))"
    and d': "tags d' = put s1 (put t2 (tags d))"
    by (elim merge_tags_InrD) blast
  note S = active_by_id_SomeD [OF s0] and T = active_by_id_SomeD [OF t0]
  have idt2: "tag_id t2 = tag_id t0" and ids1: "tag_id s1 = tag_id s0"
    by (simp_all add: t2 s1 increment_usage_def Let_def)
  define g where "g = (\<lambda>u. if tag_id u = src then s1 else if tag_id u = tgt then t2 else u)"
  have p1: "put t2 (tags d) = map (\<lambda>u. if tag_id u = tgt then t2 else u) (tags d)"
    unfolding put_def using idt2 T by simp
  have map_g: "tags d' = map g (tags d)"
    unfolding d' p1 unfolding put_def g_def using ids1 idt2 S T ne by (auto intro!: map_cong)
  have src_row: "g u = s1 \<and> u = s0" if "u \<in> set (tags d)" "tag_id u = src" for u
    using that S pk by (auto simp: g_def dest: distinct_ids_eq)
  have tgt_row: "g u = t2 \<and> u = t0" if "u \<in> set (tags d)" "tag_id u = tgt" for u
    using that S T ne pk by (auto simp: g_def dest: distinct_ids_eq)
  have other_row: "g u = u" if "tag_id u \<noteq> src" "tag_id u \<noteq> tgt" for u
    using that by (simp add: g_def)
  have t2_eq: "t2 = t0\<lparr>usage_count := usage_count t2, popularity_score := popularity_score t2,
                  aliases := aliases t2\<rparr>"
    by (simp add: t2 increment_usage_def Let_def)
  have t2_f: "tag_id t2 = tag_id t0 \<and> parent_id t2 = parent_id t0 \<and> level t2 = level t0 \<and>
        path t2 = path t0 \<and> name t2 = name t0 \<and> status t2 = status t0"
    by (simp add: t2 increment_usage_def Let_def)
  have s1_f: "tag_id s1 = tag_id s0 \<and> parent_id s1 = parent_id s0 \<and> level s1 = level s0 \<and>
        path s1 = path s0 \<and> name s1 = name s0"
    by (simp add: s1)
  have row: "tag_id u' = tag_id u \<and> parent_id u' = parent_id u \<and> level u' = level u \<and>
        path u' = path u \<and> name u' = name u \<and>
        (tag_id u \<noteq> src \<longrightarrow> status u' = status u) \<and>
        (tag_id u \<noteq> src \<and> tag_id u \<noteq> tgt \<longrightarrow> u' = u) \<and>
        (tag_id u = tgt \<longrightarrow>
           u' = u\<lparr>usage_count := usage_count u', popularity_score := popularity_score u',
                  aliases := aliases u'\<rparr>)"
    if "(u, u') \<in> set (zip (tags d) (tags d'))" for u u'
  proof -
    from that have u: "u \<in> set (tags d)" and u': "u' = g u"
      unfolding map_g by (auto dest: zip_map_self)
    consider "tag_id u = src" | "tag_id u = tgt" "tag_id u \<noteq> src" | "tag_id u \<noteq> src" "tag_id u \<noteq> tgt"
      by blast
    then show ?thesis
    proof cases
      case 1
      with src_row [OF u] have "u' = s1" "u = s0" unfolding u' by blast+
      with 1 S T ne s1_f show ?thesis by auto
    next
      case 2
      with tgt_row [OF u] have "u' = t2" "u = t0" unfolding u' by blast+
      with 2 t2_f t2_eq show ?thesis by auto
    next
      case 3
      with other_row have "u' = u" by (simp add: u')
      with 3 show ?thesis by simp
    qed
  qed
  have "length (tags d') = length (tags d)" by (simp add: map_g)
  with row show ?thesis by blast
qed

theorem merge_frame_witness:
  "distinct (map tag_id (tags chain_db)) \<and>
   (\<exists>d'. merge_tags chain_db ''a'' ''b'' ''u1'' = Inr d' \<and> length (tags d') = length (tags chain_db) \<and>
    (\<forall>(u, u') \<in> set (zip (tags chain_db) (tags d')).
        tag_id u' = tag_id u \<and> parent_id u' = parent_id u \<and> level u' = level u \<and>
        path u' = path u \<and> name u' = name u \<and>
        (tag_id u \<noteq> ''a'' \<longrightarrow> status u' = status u) \<and>
        (tag_id u \<noteq> ''a'' \<and> tag_id u \<noteq> ''b'' \<longrightarrow> u' = u) \<and>
        (tag_id u = ''b'' \<longrightarrow>
           u' = u\<lparr>usage_count := usage_count u', popularity_score := popularity_score u',
                  aliases := aliases u'\<rparr>)))"
proof -
  have pk: "distinct (map tag_id (tags chain_db))"
    by (simp add: chain_db_def example_tag_def)
  have "\<exists>d'. merge_tags chain_db ''a'' ''b'' ''u1'' = Inr d'"
    by (simp add: merge_tags_def chain_db_def example_tag_def active_by_id_def
        rewrite_entry_tags_def increment_usage_def popularity_fits_def Let_def)
  then obtain d' where ok: "merge_tags chain_db ''a'' ''b'' ''u1'' = Inr d'" ..
  from merge_frame [OF pk ok] pk ok show ?thesis by blast
qed

subsection \<open>Searching\<close>

lemma search_order_le: "search_order a \<le> search_order b \<longleftrightarrow> search_before a b"
  by (auto simp: search_order_def search_before_def less_eq_prod_def less_prod_def)

lemma sorted_wrt_take': "sorted_wrt P xs \<Longrightarrow> sorted_wrt P (take n xs)"
  by (metis append_take_drop_id sorted_wrt_append)

lemma limit_rows_sorted_wrt: "sorted_wrt P xs \<Longrightarrow> sorted_wrt P (limit_rows l xs)"
  by (simp add: limit_rows_def sorted_wrt_take')

lemma limit_rows_length: "0 \<le> l \<Longrightarrow> int (length (limit_rows l xs)) \<le> l"
  by (simp add: limit_rows_def)

lemma limit_rows_subset: "set (limit_rows l xs) \<subseteq> set xs"
  by (auto simp: limit_rows_def dest: in_set_takeD)

text \<open>
  C8. For every table and every arguments, the result of \<^verbatim>\<open>search_tags\<close> is sorted by
  usage count descending, then quality score descending, then name ascending; it holds
  only rows of the table that are active and pass the filters; and for a limit that is
  a row count (not negative) it has at most \<open>limit\<close> rows.
\<close>

theorem search_tags_sorted_limited:
  "sorted_wrt search_before (search_tags d keyword cat dmn limit) \<and>
   (0 \<le> limit \<longrightarrow> int (length (search_tags d keyword cat dmn limit)) \<le> limit) \<and>
   (\<forall>t \<in> set (search_tags d keyword cat dmn limit).
      t \<in> set (tags d) \<and> search_filter keyword cat dmn t)"
proof -
  let ?rows = "sort_key search_order (filter (search_filter keyword cat dmn) (tags d))"
  have "sorted (map search_order ?rows)" by (rule sorted_sort_key)
  then have "sorted_wrt search_before ?rows"
    by (simp add: sorted_map search_order_le [abs_def])
  then have 1: "sorted_wrt search_before (search_tags d keyword cat dmn limit)"
    unfolding search_tags_def by (rule limit_rows_sorted_wrt)
  have 2: "0 \<le> limit \<longrightarrow> int (length (search_tags d keyword cat dmn limit)) \<le> limit"
    unfolding search_tags_def by (simp add: limit_rows_length)
  have 3: "\<forall>t \<in> set (search_tags d keyword cat dmn limit).
      t \<in> set (tags d) \<and> search_filter keyword cat dmn t"
    unfolding search_tags_def using limit_rows_subset [of limit ?rows] by auto
  from 1 2 3 show ?thesis by blast
qed

text \<open>
  The scenario of the specification: \<open>search("cat", limit=5)\<close> over the tags \<open>Cat\<close>,
  \<open>Catfish\<close> and \<open>Category\<close>, all unused, returns the three by name.
\<close>

theorem search_tags_sorted_limited_witness:
  "(0::int) \<le> 5 \<and>
   map name (search_tags cats_db (Some ''cat'') None None 5) = [''Cat'', ''Category'', ''Catfish''] \<and>
   sorted_wrt search_before (search_tags cats_db (Some ''cat'') None None 5) \<and>
   int (length (search_tags cats_db (Some ''cat'') None None 5)) \<le> 5 \<and>
   list_all (\<lambda>t. t \<in> set (tags cats_db) \<and> search_filter (Some ''cat'') None None t)
     (search_tags cats_db (Some ''cat'') None None 5)"
proof -
  have "map name (search_tags cats_db (Some ''cat'') None None 5) = [''Cat'', ''Category'', ''Catfish'']"
    by code_simp
  with search_tags_sorted_limited [of cats_db "Some ''cat''" None None 5] show ?thesis
    by (simp add: list_all_iff)
qed

text \<open>
  C10. With an empty or absent keyword \<^verbatim>\<open>search_tags\<close> does not look at the keyword
  clause: the result is the active rows that pass the category and domain filters, in
  the search order, cut at the limit.
\<close>

theorem search_tags_empty_keyword:
  assumes "keyword = None \<or> keyword = Some []"
  shows "search_tags d keyword cat dmn limit =
     limit_rows limit
       (sort_key search_order
          (filter (\<lambda>t. status t = Active \<and> (truthy cat \<longrightarrow> category t = cat) \<and>
                       (truthy dmn \<longrightarrow> domain t = dmn)) (tags d)))"
  using assms
  by (auto simp: search_tags_def search_filter_def truthy_def
      intro!: arg_cong [where f = "\<lambda>P. limit_rows limit (sort_key search_order (filter P (tags d)))"])

theorem search_tags_empty_keyword_witness:
  "(Some [] = (None :: string option) \<or> Some [] = Some ([] :: string)) \<and>
   map name (search_tags cats_db (Some []) (Some ''general'') None 2) = [''Dog'', ''Cat''] \<and>
   search_tags cats_db (Some []) (Some ''general'') None 2 =
     limit_rows 2
       (sort_key search_order
          (filter (\<lambda>t. status t = Active \<and> category t = Some ''general'') (tags cats_db)))"
proof -
  have "map name (search_tags cats_db (Some []) (Some ''general'') None 2) = [''Dog'', ''Cat'']"
    by code_simp
  with search_tags_empty_keyword [of "Some []" cats_db "Some ''general''" None 2] show ?thesis
    by (simp add: truthy_def)
qed

subsection \<open>The status of the rows that the read side returns\<close>

lemma those_map_SomeD:
  "those (map f xs) = Some ys \<Longrightarrow> y \<in> set ys \<Longrightarrow> \<exists>x \<in> set xs. f x = Some y"
  by (induction xs arbitrary: ys) (auto split: option.splits)

lemma active_children_active: "c \<in> set (active_children d t) \<Longrightarrow> status c = Active"
  by (simp add: active_children_def)

lemma build_tag_tree_active:
  "status t = Active \<Longrightarrow> build_tag_tree limit d st k t = Some n \<Longrightarrow>
   \<forall>u \<in> set (tree_tags n). status u = Active"
proof (induction k arbitrary: t n)
  case 0
  then show ?case by (auto split: option.splits)
next
  case (Suc k)
  from Suc.prems obtain s cs where
    cs: "those (map (build_tag_tree limit d st k) (active_children d t)) = Some cs"
    and n: "n = TreeNode t s (Some cs)"
    by (auto split: option.splits)
  have "\<forall>u \<in> set (tree_tags c). status u = Active" if "c \<in> set cs" for c
  proof -
    from those_map_SomeD [OF cs that] obtain ch where
      "ch \<in> set (active_children d t)" "build_tag_tree limit d st k ch = Some c" by blast
    then show ?thesis using Suc.IH active_children_active by blast
  qed
  with Suc.prems(1) show ?case by (auto simp: n)
qed

lemma root_tags_active: "r \<in> set (root_tags d root_id) \<Longrightarrow> status r = Active"
  by (auto simp: root_tags_def split: if_splits)

lemma get_tag_tree_active:
  assumes "n \<in> set (get_tag_tree limit d root_id max_depth st)" "u \<in> set (tree_tags n)"
  shows "status u = Active"
proof -
  from assms(1) obtain res where
    res: "those (map (build_tag_tree limit d st (nat max_depth)) (root_tags d root_id)) = Some res"
    and "n \<in> set res"
    unfolding get_tag_tree_def
    by (cases "those (map (build_tag_tree limit d st (nat max_depth)) (root_tags d root_id))") auto
  from those_map_SomeD [OF this] obtain r where
    "r \<in> set (root_tags d root_id)" "build_tag_tree limit d st (nat max_depth) r = Some n" by blast
  with build_tag_tree_active root_tags_active assms(2) show ?thesis by blast
qed

lemma get_categories_counts:
  assumes "(c, n) \<in> set (get_categories d)"
  shows "n = length (filter (\<lambda>t. status t = Active \<and> category t = c) (tags d)) \<and> 0 < n"
proof -
  let ?act = "filter (\<lambda>t. status t = Active) (tags d)"
  from assms have c: "c \<in> set (map category ?act)"
    and n: "n = length (filter (\<lambda>t. category t = c) ?act)"
    by (auto simp: get_categories_def Let_def)
  from c obtain t where "t \<in> set ?act" "category t = c" by auto
  then have "filter (\<lambda>t. category t = c) ?act \<noteq> []"
    by (auto simp: filter_empty_conv)
  moreover have "filter (\<lambda>t. category t = c) ?act = filter (\<lambda>t. status t = Active \<and> category t = c) (tags d)"
    by (simp add: conj_commute)
  ultimately show ?thesis using n by simp
qed

text \<open>
  C5, as the code has it. The claim lets deprecated tags through; every query of the
  read side filters on \<^verbatim>\<open>status = 'active'\<close> instead. A table whose only tag is
  deprecated gives an empty result everywhere:
\<close>

theorem reads_exclude_deprecated:
  "search_tags deprecated_db (Some ''old'') None None 20 = [] \<and>
   get_tag_suggestions deprecated_db ''Ol'' 20 = [] \<and>
   get_popular_tags deprecated_db 20 = [] \<and>
   get_tag_tree 100 deprecated_db None 3 False = [] \<and>
   get_tag_tree 100 deprecated_db (Some ''t1'') 3 False = [] \<and>
   get_categories deprecated_db = []"
  by code_simp

text \<open>
  C5, amended: every row returned by search, suggestions, popular and tree (at any
  depth of the tree) is active, and the categories count the active rows only. So
  deleted, merged and deprecated tags are all left out.
\<close>

theorem reads_return_active_only:
  "(\<forall>t \<in> set (search_tags d keyword cat dmn limit). status t = Active) \<and>
   (\<forall>t \<in> set (get_tag_suggestions d partial_name limit). status t = Active) \<and>
   (\<forall>t \<in> set (get_popular_tags d limit). status t = Active) \<and>
   (\<forall>n \<in> set (get_tag_tree rlimit d root_id max_depth include_stats).
      \<forall>t \<in> set (tree_tags n). status t = Active) \<and>
   (\<forall>(c, n) \<in> set (get_categories d).
      n = length (filter (\<lambda>t. status t = Active \<and> category t = c) (tags d)) \<and> 0 < n)"
proof -
  have 1: "\<forall>t \<in> set (search_tags d keyword cat dmn limit). status t = Active"
    using limit_rows_subset by (fastforce simp: search_tags_def search_filter_def)
  have 2: "\<forall>t \<in> set (get_tag_suggestions d partial_name limit). status t = Active"
    using limit_rows_subset by (fastforce simp: get_tag_suggestions_def)
  have 3: "\<forall>t \<in> set (get_popular_tags d limit). status t = Active"
    using limit_rows_subset by (fastforce simp: get_popular_tags_def)
  have 4: "\<forall>n \<in> set (get_tag_tree rlimit d root_id max_depth include_stats).
      \<forall>t \<in> set (tree_tags n). status t = Active"
    using get_tag_tree_active by blast
  have 5: "\<forall>(c, n) \<in> set (get_categories d).
      n = length (filter (\<lambda>t. status t = Active \<and> category t = c) (tags d)) \<and> 0 < n"
    using get_categories_counts by blast
  from 1 2 3 4 5 show ?thesis by blast
qed

text \<open>
  On the five tags of \<open>cats_db\<close> each query returns rows, all of them active; the
  deprecated \<open>Wildcat\<close>, used 7 times, is in none of the results.
\<close>

theorem reads_return_active_only_witness:
  "map name (search_tags cats_db (Some ''cat'') None None 5) = [''Cat'', ''Category'', ''Catfish''] \<and>
   list_all (\<lambda>t. status t = Active) (search_tags cats_db (Some ''cat'') None None 5) \<and>
   map name (get_tag_suggestions cats_db ''w'' 5) = [] \<and>
   map name (get_tag_suggestions cats_db ''ca'' 5) = [''Catfish'', ''Category'', ''Cat''] \<and>
   list_all (\<lambda>t. status t = Active) (get_tag_suggestions cats_db ''ca'' 5) \<and>
   map name (get_popular_tags cats_db 5) = [''Dog'', ''Catfish'', ''Category'', ''Cat''] \<and>
   list_all (\<lambda>t. status t = Active) (get_popular_tags cats_db 5) \<and>
   map name (concat (map tree_tags (get_tag_tree 100 cats_db None 3 False)))
     = [''Cat'', ''Category'', ''Catfish'', ''Dog''] \<and>
   list_all (\<lambda>n. list_all (\<lambda>t. status t = Active) (tree_tags n))
     (get_tag_tree 100 cats_db None 3 False) \<and>
   get_categories cats_db = [(Some ''general'', 4)] \<and>
   length (filter (\<lambda>t. status t = Active \<and> category t = Some ''general'') (tags cats_db)) = 4"
proof -
  have "map name (search_tags cats_db (Some ''cat'') None None 5) = [''Cat'', ''Category'', ''Catfish'']"
    and "map name (get_tag_suggestions cats_db ''w'' 5) = []"
    and "map name (get_tag_suggestions cats_db ''ca'' 5) = [''Catfish'', ''Category'', ''Cat'']"
    and "map name (get_popular_tags cats_db 5) = [''Dog'', ''Catfish'', ''Category'', ''Cat'']"
    and "map name (concat (map tree_tags (get_tag_tree 100 cats_db None 3 False)))
           = [''Cat'', ''Category'', ''Catfish'', ''Dog'']"
    and "get_categories cats_db = [(Some ''general'', 4)]"
    by code_simp+
  with reads_return_active_only [of cats_db "Some ''cat''" None None 5 "''ca''" 100 None 3 False]
  show ?thesis
    by (simp add: list_all_iff)
qed

subsection \<open>The tree\<close>

lemma those_map_all2:
  "those (map f xs) = Some ys \<Longrightarrow> list_all2 (\<lambda>x y. f x = Some y) xs ys"
  by (induction xs arbitrary: ys) (auto split: option.splits)

lemma those_map_None: "those (map f xs) = None \<longleftrightarrow> (\<exists>x \<in> set xs. f x = None)"
  by (induction xs) (auto split: option.splits)

lemma those_map_Some: "\<forall>x \<in> set xs. f x \<noteq> None \<Longrightarrow> those (map f xs) = Some (map (the \<circ> f) xs)"
  by (induction xs) auto

lemma build_tag_tree_node:
  assumes "build_tag_tree limit d st k t = Some n"
  shows "node_tag n = t \<and> (k = 0 \<longrightarrow> node_children n = None) \<and>
         (0 < k \<longrightarrow> (\<exists>cs. node_children n = Some cs \<and> map node_tag cs = active_children d t))"
proof (cases k)
  case 0
  with assms show ?thesis by (auto simp: node_tag_def node_children_def split: option.splits)
next
  case (Suc j)
  with assms obtain s cs where
    cs: "those (map (build_tag_tree limit d st j) (active_children d t)) = Some cs"
    and n: "n = TreeNode t s (Some cs)"
    by (auto split: option.splits)
  have "list_all2 (\<lambda>x y. node_tag y = x) (active_children d t) cs"
  proof (rule list_all2_mono [OF those_map_all2 [OF cs]])
    fix x y assume "build_tag_tree limit d st j x = Some y"
    then show "node_tag y = x"
      by (cases j) (auto simp: node_tag_def split: option.splits)
  qed
  then have "map node_tag cs = active_children d t"
    by (induction rule: list_all2_induct) auto
  with Suc n show ?thesis by (simp add: node_tag_def node_children_def)
qed

lemma filter_key_single:
  "distinct (map f xs) \<Longrightarrow> x \<in> set xs \<Longrightarrow> P x \<Longrightarrow> filter (\<lambda>y. f y = f x \<and> P y) xs = [x]"
proof (induction xs)
  case Nil
  then show ?case by simp
next
  case (Cons a xs)
  show ?case
  proof (cases "a = x")
    case True
    with Cons.prems have "\<forall>y \<in> set xs. f y \<noteq> f x" by (auto simp: image_iff)
    then have "filter (\<lambda>y. f y = f x \<and> P y) xs = []" by (auto simp: filter_empty_conv)
    with True Cons.prems show ?thesis by simp
  next
    case False
    with Cons.prems have "x \<in> set xs" "f a \<noteq> f x" by auto
    with Cons show ?thesis by simp
  qed
qed

lemma root_tags_selected:
  assumes "distinct (map tag_id (tags d))" "r \<in> set (tags d)" "status r = Active" "tag_id r \<noteq> []"
  shows "root_tags d (Some (tag_id r)) = [r]"
  using filter_key_single [OF assms(1,2), of "\<lambda>t. status t = Active"] assms(3,4)
  by (simp add: root_tags_def truthy_def)

lemma get_tag_tree_selected:
  assumes "distinct (map tag_id (tags d))" "r \<in> set (tags d)" "status r = Active" "tag_id r \<noteq> []"
  shows "get_tag_tree limit d (Some (tag_id r)) max_depth st =
           (case build_tag_tree limit d st (nat max_depth) r of None \<Rightarrow> [] | Some n \<Rightarrow> [n])"
  by (simp add: get_tag_tree_def root_tags_selected [OF assms] split: option.splits)

lemma root_tags_None: "root_tags d None = all_roots d"
  by (simp add: root_tags_def all_roots_def truthy_def)

lemma concat_map_singleton:
  "\<forall>x \<in> set xs. g x = [h x] \<Longrightarrow> concat (map g xs) = map h xs"
  by (induction xs) auto

lemma build_tag_tree_no_stats: "build_tag_tree limit d False k t \<noteq> None"
proof (induction k arbitrary: t)
  case 0
  show ?case by (simp add: stats_for_def)
next
  case (Suc k)
  then have "those (map (build_tag_tree limit d False k) (active_children d t)) \<noteq> None"
    by (simp add: those_map_None)
  then show ?case by (auto simp: stats_for_def)
qed

lemma list_all2_map_eq: "list_all2 (\<lambda>x y. g y = x) xs ys \<Longrightarrow> map g ys = xs"
  by (induction rule: list_all2_induct) auto

lemma build_tag_tree_well_expanded:
  "build_tag_tree limit d st k t = Some n \<Longrightarrow> node_tag n = t \<and> well_expanded limit d st k n"
proof (induction k arbitrary: t n)
  case 0
  then show ?case by (auto simp: node_tag_def split: option.splits)
next
  case (Suc k)
  from Suc.prems obtain s cs where
    s: "stats_for limit d st t = Some s"
    and cs: "those (map (build_tag_tree limit d st k) (active_children d t)) = Some cs"
    and n: "n = TreeNode t s (Some cs)"
    by (auto split: option.splits)
  have all2: "list_all2 (\<lambda>x y. node_tag y = x \<and> well_expanded limit d st k y) (active_children d t) cs"
    by (rule list_all2_mono [OF those_map_all2 [OF cs]]) (use Suc.IH in blast)
  then have "list_all2 (\<lambda>x y. node_tag y = x) (active_children d t) cs"
    by (rule list_all2_mono) blast
  then have tags: "map node_tag cs = active_children d t" by (rule list_all2_map_eq)
  from all2 have "list_all (well_expanded limit d st k) cs"
    by (auto simp: list_all_iff list_all2_conv_all_nth in_set_conv_nth)
  with s tags n show ?case by (simp add: node_tag_def)
qed

text \<open>Conversely, a node expanded to depth \<open>k\<close> is the node that the code builds.\<close>

lemma those_Some: "those (map Some ys) = Some ys"
  by (induction ys) auto

lemma well_expanded_is_built:
  "well_expanded limit d st k n \<Longrightarrow> build_tag_tree limit d st k (node_tag n) = Some n"
proof (induction k arbitrary: n)
  case 0
  then show ?case by (cases n) (simp add: node_tag_def)
next
  case (Suc k)
  obtain t s cs where n: "n = TreeNode t s cs" by (cases n)
  from Suc.prems n obtain ns where
    s: "stats_for limit d st t = Some s" and cs: "cs = Some ns"
    and tags: "map node_tag ns = active_children d t"
    and all: "list_all (well_expanded limit d st k) ns"
    by (auto split: option.splits)
  have "map (build_tag_tree limit d st k) (map node_tag ns) = map Some ns"
    using all Suc.IH by (auto simp: list_all_iff)
  then have "those (map (build_tag_tree limit d st k) (active_children d t)) = Some ns"
    unfolding tags [symmetric] by (simp only: those_Some)
  with s n cs show ?case by (simp add: node_tag_def)
qed

text \<open>
  C6, amended. Without a root id \<^verbatim>\<open>get_tag_tree\<close> returns every active root tag, by
  name, and descends below each of them as it does below a root selected by its id:
  every node is expanded to the depth \<^verbatim>\<open>max_depth\<close>, that is, a node at a depth below
  \<^verbatim>\<open>max_depth\<close> carries the nodes of all its active children, by name, and a node at the
  depth \<^verbatim>\<open>max_depth\<close> (a root, when \<^verbatim>\<open>max_depth\<close> is not positive) carries no \<^verbatim>\<open>children\<close>
  key. (If the statistics of one node raise, the whole result is \<^verbatim>\<open>[]\<close>.)
\<close>

theorem get_tag_tree_expands_every_root:
  assumes pk: "distinct (map tag_id (tags d))" and ne: "[] \<notin> set (map tag_id (tags d))"
  shows
   "get_tag_tree limit d None max_depth st =
      (if \<forall>r \<in> set (all_roots d). get_tag_tree limit d (Some (tag_id r)) max_depth st \<noteq> []
       then concat (map (\<lambda>r. get_tag_tree limit d (Some (tag_id r)) max_depth st) (all_roots d))
       else []) \<and>
    (\<not> st \<longrightarrow> map node_tag (get_tag_tree limit d None max_depth st) = all_roots d) \<and>
    (get_tag_tree limit d None max_depth st \<noteq> [] \<longrightarrow>
       map node_tag (get_tag_tree limit d None max_depth st) = all_roots d) \<and>
    (\<forall>n \<in> set (get_tag_tree limit d None max_depth st).
       well_expanded limit d st (nat max_depth) n) \<and>
    (\<forall>n \<in> set (get_tag_tree limit d None max_depth st).
       (max_depth \<le> 0 \<longrightarrow> node_children n = None) \<and>
       (0 < max_depth \<longrightarrow>
          (\<exists>cs. node_children n = Some cs \<and> map node_tag cs = active_children d (node_tag n))))"
proof -
  let ?b = "build_tag_tree limit d st (nat max_depth)"
  have sel: "get_tag_tree limit d (Some (tag_id r)) max_depth st =
           (case ?b r of None \<Rightarrow> [] | Some n \<Rightarrow> [n])" if "r \<in> set (all_roots d)" for r
  proof -
    from that have "r \<in> set (tags d)" "status r = Active" by (auto simp: all_roots_def)
    moreover from this ne have "tag_id r \<noteq> []" by force
    ultimately show ?thesis using get_tag_tree_selected [OF pk] by blast
  qed
  have A: "get_tag_tree limit d None max_depth st =
      (if \<forall>r \<in> set (all_roots d). get_tag_tree limit d (Some (tag_id r)) max_depth st \<noteq> []
       then concat (map (\<lambda>r. get_tag_tree limit d (Some (tag_id r)) max_depth st) (all_roots d))
       else [])"
  proof (cases "\<forall>r \<in> set (all_roots d). ?b r \<noteq> None")
    case True
    then have th: "those (map ?b (all_roots d)) = Some (map (the \<circ> ?b) (all_roots d))"
      by (rule those_map_Some)
    have each: "get_tag_tree limit d (Some (tag_id r)) max_depth st = [(the \<circ> ?b) r]"
      if "r \<in> set (all_roots d)" for r
      using sel [OF that] True that by (auto split: option.splits)
    then have "concat (map (\<lambda>r. get_tag_tree limit d (Some (tag_id r)) max_depth st) (all_roots d))
        = map (the \<circ> ?b) (all_roots d)"
      by (intro concat_map_singleton) blast
    then show ?thesis using each th
      by (simp add: get_tag_tree_def root_tags_None)
  next
    case False
    then obtain r where r: "r \<in> set (all_roots d)" "?b r = None" by blast
    then have "those (map ?b (all_roots d)) = None" by (auto simp: those_map_None)
    moreover from sel [OF r(1)] r(2) have "get_tag_tree limit d (Some (tag_id r)) max_depth st = []"
      by simp
    ultimately show ?thesis using r(1)
      by (auto simp: get_tag_tree_def root_tags_None)
  qed
  have nodes: "list_all2 (\<lambda>r n. ?b r = Some n) (all_roots d) (get_tag_tree limit d None max_depth st)"
    if "get_tag_tree limit d None max_depth st \<noteq> [] \<or> (\<forall>r \<in> set (all_roots d). ?b r \<noteq> None)"
  proof (cases "those (map ?b (all_roots d))")
    case None
    with that show ?thesis by (auto simp: get_tag_tree_def root_tags_None those_map_None)
  next
    case (Some res)
    from those_map_all2 [OF this] Some show ?thesis
      by (simp add: get_tag_tree_def root_tags_None)
  qed
  have B: "\<not> st \<longrightarrow> map node_tag (get_tag_tree limit d None max_depth st) = all_roots d"
  proof
    assume "\<not> st"
    then have "\<forall>r \<in> set (all_roots d). ?b r \<noteq> None"
      using build_tag_tree_no_stats by simp
    then have "list_all2 (\<lambda>r n. ?b r = Some n) (all_roots d) (get_tag_tree limit d None max_depth st)"
      using nodes by blast
    then have "list_all2 (\<lambda>r n. node_tag n = r) (all_roots d) (get_tag_tree limit d None max_depth st)"
      by (rule list_all2_mono) (use build_tag_tree_node in blast)
    then show "map node_tag (get_tag_tree limit d None max_depth st) = all_roots d"
      by (rule list_all2_map_eq)
  qed
  have C: "(max_depth \<le> 0 \<longrightarrow> node_children n = None) \<and>
       (0 < max_depth \<longrightarrow>
          (\<exists>cs. node_children n = Some cs \<and> map node_tag cs = active_children d (node_tag n)))"
    if "n \<in> set (get_tag_tree limit d None max_depth st)" for n
  proof -
    from that have "get_tag_tree limit d None max_depth st \<noteq> []" by auto
    with nodes have "list_all2 (\<lambda>r n. ?b r = Some n) (all_roots d) (get_tag_tree limit d None max_depth st)"
      by blast
    with that obtain r where "?b r = Some n"
      by (auto simp: list_all2_conv_all_nth in_set_conv_nth)
    from build_tag_tree_node [OF this] show ?thesis by auto
  qed
  have D: "get_tag_tree limit d None max_depth st \<noteq> [] \<longrightarrow>
       map node_tag (get_tag_tree limit d None max_depth st) = all_roots d"
  proof
    assume "get_tag_tree limit d None max_depth st \<noteq> []"
    with nodes have "list_all2 (\<lambda>r n. ?b r = Some n) (all_roots d) (get_tag_tree limit d None max_depth st)"
      by blast
    then have "list_all2 (\<lambda>r n. node_tag n = r) (all_roots d) (get_tag_tree limit d None max_depth st)"
      by (rule list_all2_mono) (use build_tag_tree_node in blast)
    then show "map node_tag (get_tag_tree limit d None max_depth st) = all_roots d"
      by (rule list_all2_map_eq)
  qed
  have E: "well_expanded limit d st (nat max_depth) n"
    if "n \<in> set (get_tag_tree limit d None max_depth st)" for n
  proof -
    from that have "get_tag_tree limit d None max_depth st \<noteq> []" by auto
    with nodes have "list_all2 (\<lambda>r n. ?b r = Some n) (all_roots d) (get_tag_tree limit d None max_depth st)"
      by blast
    with that obtain r where "?b r = Some n"
      by (auto simp: list_all2_conv_all_nth in_set_conv_nth)
    from build_tag_tree_well_expanded [OF this] show ?thesis by simp
  qed
  from A B C D E show ?thesis by blast
qed


text \<open>
  C6, as the code has it. The claim lets the call without a root id return shallow
  nodes. On the chain \<open>A \<rightarrow> B \<rightarrow> C\<close> the call with the default depth 3 returns the root
  \<open>A\<close> with its child \<open>B\<close> and grandchild \<open>C\<close>:
\<close>

theorem get_tag_tree_descends_without_root:
  "map name (concat (map tree_tags (get_tag_tree 100 chain_db None 3 False))) = [''A'', ''B'', ''C''] \<and>
   map (map_option (map (name \<circ> node_tag)) \<circ> node_children)
     (get_tag_tree 100 chain_db None 3 False) = [Some [''B'']]"
  by code_simp

text \<open>
  On the chain \<open>A \<rightarrow> B \<rightarrow> C\<close> with the depth 3: the only root is \<open>A\<close>, the call without a
  root id returns what the call for \<open>A\<close> returns, and its node is expanded to depth 3,
  with \<open>B\<close> below \<open>A\<close> and \<open>C\<close> below \<open>B\<close>.
\<close>

theorem get_tag_tree_expands_every_root_witness:
  "distinct (map tag_id (tags chain_db)) \<and> [] \<notin> set (map tag_id (tags chain_db)) \<and>
   map tag_id (all_roots chain_db) = [''a''] \<and>
   get_tag_tree 100 chain_db None 3 False \<noteq> [] \<and>
   get_tag_tree 100 chain_db None 3 False = get_tag_tree 100 chain_db (Some ''a'') 3 False \<and>
   map node_tag (get_tag_tree 100 chain_db None 3 False) = all_roots chain_db \<and>
   list_all (well_expanded 100 chain_db False 3) (get_tag_tree 100 chain_db None 3 False) \<and>
   map name (concat (map tree_tags (get_tag_tree 100 chain_db None 3 False))) = [''A'', ''B'', ''C''] \<and>
   list_all (\<lambda>n. \<exists>cs. node_children n = Some cs \<and>
                      map node_tag cs = active_children chain_db (node_tag n))
     (get_tag_tree 100 chain_db None 3 False)"
proof -
  have pk: "distinct (map tag_id (tags chain_db))" and ne: "[] \<notin> set (map tag_id (tags chain_db))"
    by (simp_all add: chain_db_def example_tag_def)
  have roots: "all_roots chain_db = [example_tag ''a'' ''A'' None 0 ''A'' Active 3]"
    by code_simp
  have a: "tag_id (example_tag ''a'' ''A'' None 0 ''A'' Active 3) = ''a''"
    by (simp add: example_tag_def)
  have nonempty: "get_tag_tree 100 chain_db (Some ''a'') 3 False \<noteq> []"
    by code_simp
  have names: "map name (concat (map tree_tags (get_tag_tree 100 chain_db None 3 False)))
                 = [''A'', ''B'', ''C'']"
    by code_simp
  then have nonempty': "get_tag_tree 100 chain_db None 3 False \<noteq> []" by auto
  note T = get_tag_tree_expands_every_root [OF pk ne, of 100 3 False]
  note T1 = T [THEN conjunct1] and T2 = T [THEN conjunct2, THEN conjunct1]
    and T4 = T [THEN conjunct2, THEN conjunct2, THEN conjunct2, THEN conjunct1]
    and T5 = T [THEN conjunct2, THEN conjunct2, THEN conjunct2, THEN conjunct2]
  from T1 nonempty have 1: "get_tag_tree 100 chain_db None 3 False = get_tag_tree 100 chain_db (Some ''a'') 3 False"
    by (simp add: roots a)
  from T2 have 2: "map node_tag (get_tag_tree 100 chain_db None 3 False) = all_roots chain_db"
    by simp
  from T4 have 4: "list_all (well_expanded 100 chain_db False 3) (get_tag_tree 100 chain_db None 3 False)"
    by (simp add: list_all_iff)
  from T5 have 5: "list_all (\<lambda>n. \<exists>cs. node_children n = Some cs \<and>
                      map node_tag cs = active_children chain_db (node_tag n))
     (get_tag_tree 100 chain_db None 3 False)"
    by (simp add: list_all_iff)
  from pk ne nonempty' 1 2 4 names 5 show ?thesis by (simp add: roots a)
qed

subsection \<open>Scoring the candidate parents\<close>

lemma candidate_score_raises: "candidate_score t c = Inl TypeError"
  by (simp add: candidate_score_def py_truediv_def Let_def)

text \<open>
  The loop never gets to keep a score: it ends with \<^verbatim>\<open>TypeError\<close> at the first
  candidate that resolves to an active tag, and leaves the dictionary as it was when
  none does.
\<close>

lemma score_loop_raises:
  "score_loop ts cs scored =
     (if \<exists>(n, c) \<in> set cs. active_by_name ts n \<noteq> None then Inl TypeError else Inr scored)"
proof (induction cs arbitrary: scored)
  case Nil
  show ?case by simp
next
  case (Cons x cs)
  obtain n c where x: "x = (n, c)" by (cases x)
  show ?case
  proof (cases "active_by_name ts n")
    case None
    with Cons x show ?thesis by simp
  next
    case (Some t)
    with x show ?thesis by (simp add: candidate_score_raises)
  qed
qed

lemma score_candidates_raises:
  "score_candidates ts cs =
     (if \<exists>(n, c) \<in> set cs. active_by_name ts n \<noteq> None then Inl TypeError else Inr [])"
  by (simp add: score_candidates_def score_loop_raises)

text \<open>
  C4. The claim: when several sources name the same existing parent, its final score
  is the maximum of their scores, not the sum. The loop of \<^verbatim>\<open>_score_candidates\<close> is
  written that way (\<^verbatim>\<open>max(scored[parent_tag], score)\<close>), but the line before it divides
  the \<^verbatim>\<open>Decimal\<close> \<^verbatim>\<open>quality_score\<close> by the float \<^verbatim>\<open>10.0\<close>. With \<open>Animal\<close> in the table and
  the two candidates \<open>Animal\<close> at 0.9 and at 0.3, the method raises \<^verbatim>\<open>TypeError\<close> and
  returns no score at all; it returns only when no candidate resolves, and then the
  empty list.
\<close>

theorem score_candidates_raises_type_error:
  "score_candidates [animal_tag, plant_tag] [(''Animal'', 9 / 10), (''Animal'', 3 / 10)]
     = Inl TypeError \<and>
   score_candidates [animal_tag, plant_tag] [(''Animal'', 9 / 10)] = Inl TypeError \<and>
   score_candidates [animal_tag, plant_tag] [(''Ghost'', 1)] = Inr []"
  by code_simp

subsection \<open>Creating\<close>

lemma create_tag_rejects_empty_name:
  "c_name a = [] \<or> strip (c_name a) = [] \<Longrightarrow> create_tag limit d i a = Inl EmptyName"
  by (auto simp: create_tag_def)

lemma create_tag_rejects_taken_name:
  "strip (c_name a) \<noteq> [] \<Longrightarrow> active_by_name (tags d) (strip (c_name a)) = Some t \<Longrightarrow>
   create_tag limit d i a = Inl NameExists"
  by (auto simp: create_tag_def Let_def strip_def)

text \<open>
  C7. The claim: \<^verbatim>\<open>create\<close> fails with a validation error when the name is empty,
  longer than 100 characters, or taken by an active tag. The two lemmas above are the
  first and the last case. \<^verbatim>\<open>TagTreeService.create_tag\<close> has no check of the length,
  which its sibling \<^verbatim>\<open>TagService.create_tag\<close> has. A name of 101 letters reaches the
  insert, and the failure is the one of the exception handler, not a validation error;
  a name of 100 letters and a trailing blank (101 characters) is accepted and stored
  without the blank. The sibling's check refuses both names.
\<close>

theorem create_tag_misses_length_check:
  "length (replicate 101 CHR ''a'') = 101 \<and>
   \<not> tag_service_name_check (replicate 101 CHR ''a'') \<and>
   create_tag 100 empty_db ''id1'' (example_args (replicate 101 CHR ''a'') None) = Inl OperationFailed \<and>
   length (replicate 100 CHR ''a'' @ '' '') = 101 \<and>
   \<not> tag_service_name_check (replicate 100 CHR ''a'' @ '' '') \<and>
   map_sum id (\<lambda>d'. map name (tags d'))
     (create_tag 100 empty_db ''id1'' (example_args (replicate 100 CHR ''a'' @ '' '') None))
     = Inr [replicate 100 CHR ''a'']"
  by code_simp

subsection \<open>Moving\<close>

text \<open>
  C2. The claim: after a move, level and path are recomputed for the moved tag and
  for every descendant. \<^verbatim>\<open>move_tag\<close> sets the level of the moved tag only, and
  \<^verbatim>\<open>update_path\<close> rewrites paths, not levels. Moving \<open>B\<close> of the chain \<open>A \<rightarrow> B \<rightarrow> C\<close>
  to the root gives \<open>B\<close> the level 0 and \<open>C\<close> the path \<open>B/C\<close>, but leaves \<open>C\<close> at
  level 2, one more than the level its parent has now plus one.
\<close>

theorem move_tag_leaves_descendant_level:
  "map_option (map_sum id (\<lambda>d'. map (\<lambda>t. (name t, parent_id t, level t, path t)) (tags d')))
     (move_tag 100 chain_db ''b'' None ''u1'')
     = Some (Inr [(''A'', None, 0, Some ''A''), (''B'', None, 0, Some ''B''),
                  (''C'', Some ''b'', 2, Some ''B/C'')]) \<and>
   map_option (map_sum id (\<lambda>d'. map (level_consistent (tags d')) (tags d')))
     (move_tag 100 chain_db ''b'' None ''u1'') = Some (Inr [True, True, False]) \<and>
   map_option (map_sum id (\<lambda>d'. map (path_consistent (tags d')) (tags d')))
     (move_tag 100 chain_db ''b'' None ''u1'') = Some (Inr [True, True, True]) \<and>
   map (level_consistent (tags chain_db)) (tags chain_db) = [True, True, True] \<and>
   map (path_consistent (tags chain_db)) (tags chain_db) = [True, True, True]"
  by code_simp

subsection \<open>The walk up the parent pointers\<close>

lemma parent_rel_finite: "finite (parent_rel ts)"
proof -
  have "parent_rel ts \<subseteq> (\<lambda>t. (tag_id t, the (parent_id t))) ` set ts"
    by (force simp: parent_rel_def)
  then show ?thesis by (rule finite_subset) simp
qed

lemma parent_rel_edge:
  assumes "distinct (map tag_id ts)" "c \<in> set ts"
  shows "(tag_id c, y) \<in> parent_rel ts \<longleftrightarrow> parent_id c = Some y"
  using assms by (auto simp: parent_rel_def dest: distinct_ids_eq)

lemma find_by_id:
  "i \<in> set (map tag_id ts) \<Longrightarrow> \<exists>t. find (\<lambda>u. tag_id u = i) ts = Some t \<and> t \<in> set ts \<and> tag_id t = i"
  by (induction ts) auto

lemma parent_Some:
  assumes "wf_store ts" "c \<in> set ts" "parent_id c = Some q"
  shows "\<exists>p. parent ts c = Some p \<and> p \<in> set ts \<and> tag_id p = q"
proof -
  from assms have "q \<in> set (map tag_id ts)" by (force simp: wf_store_def fk_ok_def)
  from find_by_id [OF this] assms(3) show ?thesis by (simp add: parent_def)
qed

lemma parent_None: "parent_id c = None \<Longrightarrow> parent ts c = None"
  by (simp add: parent_def)

lemma rtrancl_from_no_edge: "(\<And>y. (x, y) \<notin> r) \<Longrightarrow> (x, a) \<in> r\<^sup>* \<longleftrightarrow> a = x"
  by (auto elim: converse_rtranclE)

lemma rtrancl_from_one_edge:
  "(\<And>y. (x, y) \<in> r \<longleftrightarrow> y = q) \<Longrightarrow> (x, a) \<in> r\<^sup>* \<longleftrightarrow> a = x \<or> (q, a) \<in> r\<^sup>*"
  by (auto elim: converse_rtranclE intro: converse_rtrancl_into_rtrancl)

lemma trancl_from_no_edge: "(\<And>y. (x, y) \<notin> r) \<Longrightarrow> (x, a) \<notin> r\<^sup>+"
  by (auto dest: tranclD)

lemma trancl_from_one_edge:
  "(\<And>y. (x, y) \<in> r \<longleftrightarrow> y = q) \<Longrightarrow> (x, a) \<in> r\<^sup>+ \<longleftrightarrow> (q, a) \<in> r\<^sup>*"
  by (auto dest: tranclD intro: rtrancl_into_trancl2)

lemma ancestors_loop_terminates:
  assumes wf: "wf_store ts"
  shows "c \<in> set ts \<Longrightarrow>
    \<exists>anc. ancestors_loop ts acc (Some c) = Some (acc @ anc) \<and>
          set anc \<subseteq> set ts \<and>
          set (map tag_id anc) = {a. (tag_id c, a) \<in> (parent_rel ts)\<^sup>*}"
proof -
  let ?R = "parent_rel ts"
  from wf have pk: "distinct (map tag_id ts)" and ac: "acyclic ?R" by (simp_all add: wf_store_def)
  have wfR: "wf (?R\<inverse>)" using parent_rel_finite ac by (rule finite_acyclic_wf_converse)
  have "\<forall>c acc. c \<in> set ts \<and> tag_id c = x \<longrightarrow>
          (\<exists>anc. ancestors_loop ts acc (Some c) = Some (acc @ anc) \<and> set anc \<subseteq> set ts \<and>
                 set (map tag_id anc) = {a. (x, a) \<in> ?R\<^sup>*})" for x
  using wfR proof (induction x rule: wf_induct_rule)
    case (less x)
    show ?case
    proof (intro allI impI, elim conjE)
      fix c acc assume c: "c \<in> set ts" and x: "tag_id c = x"
      show "\<exists>anc. ancestors_loop ts acc (Some c) = Some (acc @ anc) \<and> set anc \<subseteq> set ts \<and>
                 set (map tag_id anc) = {a. (x, a) \<in> ?R\<^sup>*}"
      proof (cases "parent_id c")
        case None
        then have "ancestors_loop ts acc (Some c) = Some (acc @ [c])"
          by (subst ancestors_loop.simps) (simp add: parent_None ancestors_loop.simps)
        moreover have "(x, y) \<notin> ?R" for y
          using parent_rel_edge [OF pk c] None x by auto
        then have "{a. (x, a) \<in> ?R\<^sup>*} = {x}" by (auto simp: rtrancl_from_no_edge)
        ultimately show ?thesis using c x by auto
      next
        case (Some q)
        from parent_Some [OF wf c Some] obtain p where
          p: "parent ts c = Some p" "p \<in> set ts" "tag_id p = q" by blast
        have edge: "(x, y) \<in> ?R \<longleftrightarrow> y = q" for y
          using parent_rel_edge [OF pk c] Some x by auto
        then have "(q, x) \<in> ?R\<inverse>" by simp
        from less.IH [OF this] p obtain anc where
          anc: "ancestors_loop ts (acc @ [c]) (Some p) = Some ((acc @ [c]) @ anc)"
            "set anc \<subseteq> set ts" "set (map tag_id anc) = {a. (q, a) \<in> ?R\<^sup>*}"
          by blast
        have "ancestors_loop ts acc (Some c) = Some (acc @ (c # anc))"
          by (subst ancestors_loop.simps) (simp add: p anc)
        moreover have "set (map tag_id (c # anc)) = {a. (x, a) \<in> ?R\<^sup>*}"
          using anc(3) x by (auto simp: rtrancl_from_one_edge [of x ?R q, OF edge])
        ultimately show ?thesis using c anc(2) by (intro exI [of _ "c # anc"]) auto
      qed
    qed
  qed
  then show "c \<in> set ts \<Longrightarrow>
    \<exists>anc. ancestors_loop ts acc (Some c) = Some (acc @ anc) \<and>
          set anc \<subseteq> set ts \<and>
          set (map tag_id anc) = {a. (tag_id c, a) \<in> (parent_rel ts)\<^sup>*}" by blast
qed

lemma get_ancestors_wf:
  assumes wf: "wf_store ts" and c: "c \<in> set ts"
  shows "\<exists>anc. get_ancestors ts c = Some anc \<and>
               set (map tag_id anc) = {a. (tag_id c, a) \<in> (parent_rel ts)\<^sup>+}"
proof (cases "parent_id c")
  case None
  from wf have pk: "distinct (map tag_id ts)" by (simp add: wf_store_def)
  have "(tag_id c, y) \<notin> parent_rel ts" for y
    using parent_rel_edge [OF pk c] None by auto
  then have "{a. (tag_id c, a) \<in> (parent_rel ts)\<^sup>+} = {}"
    by (auto simp: trancl_from_no_edge)
  moreover have "get_ancestors ts c = Some []"
    by (simp add: get_ancestors_def parent_None [OF None] ancestors_loop.simps)
  ultimately show ?thesis by simp
next
  case (Some q)
  from wf have pk: "distinct (map tag_id ts)" by (simp add: wf_store_def)
  from parent_Some [OF wf c Some] obtain p where
    p: "parent ts c = Some p" "p \<in> set ts" "tag_id p = q" by blast
  have edge: "(tag_id c, y) \<in> parent_rel ts \<longleftrightarrow> y = q" for y
    using parent_rel_edge [OF pk c] Some by auto
  from ancestors_loop_terminates [OF wf p(2), of "[]"] obtain anc where
    "ancestors_loop ts [] (Some p) = Some anc"
    "set (map tag_id anc) = {a. (q, a) \<in> (parent_rel ts)\<^sup>*}"
    using p(3) by auto
  then show ?thesis
    by (simp add: get_ancestors_def p trancl_from_one_edge [of "tag_id c" "parent_rel ts" q, OF edge])
qed

lemma wf_store_no_self_ancestor:
  assumes "wf_store ts"
  shows "no_self_ancestor ts"
  unfolding no_self_ancestor_def
proof
  fix t assume "t \<in> set ts"
  from get_ancestors_wf [OF assms this] obtain anc where
    "get_ancestors ts t = Some anc" "set (map tag_id anc) = {a. (tag_id t, a) \<in> (parent_rel ts)\<^sup>+}"
    by blast
  moreover from assms have "(tag_id t, tag_id t) \<notin> (parent_rel ts)\<^sup>+"
    by (simp add: wf_store_def acyclic_def)
  ultimately show "case get_ancestors ts t of None \<Rightarrow> False
       | Some ancestors \<Rightarrow> tag_id t \<notin> set (map tag_id ancestors)"
    by auto
qed

lemma can_be_parent_of_wf:
  assumes wf: "wf_store ts" and p: "p \<in> set ts"
  shows "can_be_parent_of ts p t =
           Some (tag_id p \<noteq> tag_id t \<and> (tag_id p, tag_id t) \<notin> (parent_rel ts)\<^sup>+)"
proof -
  from get_ancestors_wf [OF wf p] obtain anc where
    "get_ancestors ts p = Some anc" "set (map tag_id anc) = {a. (tag_id p, a) \<in> (parent_rel ts)\<^sup>+}"
    by blast
  then show ?thesis by (auto simp: can_be_parent_of_def)
qed

subsection \<open>What a move and a path update keep\<close>

lemma parent_rel_zip:
  "parent_rel ts = {(i, p). (i, Some p) \<in> set (zip (map tag_id ts) (map parent_id ts))}"
proof -
  have "zip (map tag_id ts) (map parent_id ts) = map (\<lambda>t. (tag_id t, parent_id t)) ts"
    by (induction ts) auto
  then show ?thesis by (auto simp: parent_rel_def)
qed

lemma wf_store_links:
  assumes "map tag_id ts' = map tag_id ts" "map parent_id ts' = map parent_id ts"
  shows "wf_store ts' = wf_store ts"
proof -
  have rel: "parent_rel ts' = parent_rel ts" by (simp add: parent_rel_zip assms)
  have "(\<forall>t \<in> set us. fk_ok us (parent_id t)) \<longleftrightarrow>
        (\<forall>po \<in> set (map parent_id us). case po of None \<Rightarrow> True | Some i \<Rightarrow> i \<in> set (map tag_id us))" for us
    by (auto simp: fk_ok_def)
  then have "(\<forall>t \<in> set ts'. fk_ok ts' (parent_id t)) \<longleftrightarrow> (\<forall>t \<in> set ts. fk_ok ts (parent_id t))"
    by (simp only: assms)
  then show ?thesis unfolding wf_store_def rel assms(1) by simp
qed

lemma fold_option_invariant:
  assumes "fold_option f xs s = Some s'" "P s"
    and "\<And>x a b. x \<in> set xs \<Longrightarrow> P a \<Longrightarrow> f x a = Some b \<Longrightarrow> P b"
  shows "P s'"
  using assms
proof (induction xs arbitrary: s)
  case Nil
  then show ?case by simp
next
  case (Cons x xs)
  from Cons.prems(1) obtain a where a: "f x s = Some a" "fold_option f xs a = Some s'"
    by (auto split: option.splits)
  from Cons.prems(3) [OF _ Cons.prems(2) a(1)] have "P a" by simp
  with a(2) show ?case using Cons.prems(3) by (intro Cons.IH) auto
qed

lemma put_same_id_links:
  assumes "distinct (map tag_id ts)" "find (\<lambda>u. tag_id u = i) ts = Some self"
  shows "map tag_id (put (self\<lparr>path := x\<rparr>) ts) = map tag_id ts \<and>
         map parent_id (put (self\<lparr>path := x\<rparr>) ts) = map parent_id ts"
proof -
  from assms(2) have self: "self \<in> set ts" by (auto simp: find_Some_iff)
  have "u = self" if "u \<in> set ts" "tag_id u = tag_id self" for u
    using distinct_ids_eq [OF assms(1) that(1) self that(2)] .
  then show ?thesis by (auto simp: put_def)
qed

lemma update_path_links:
  "distinct (map tag_id ts) \<Longrightarrow> update_path n i ts = Some ts' \<Longrightarrow>
   map tag_id ts' = map tag_id ts \<and> map parent_id ts' = map parent_id ts"
proof (induction n arbitrary: i ts ts')
  case 0
  then show ?case by simp
next
  case (Suc n)
  show ?case
  proof (cases "find (\<lambda>t. tag_id t = i) ts")
    case None
    with Suc.prems show ?thesis by simp
  next
    case (Some self)
    let ?ts1 = "put (self\<lparr>path := Some (new_path ts self)\<rparr>) ts"
    let ?P = "\<lambda>s. map tag_id s = map tag_id ts \<and> map parent_id s = map parent_id ts"
    from Suc.prems(2) Some have
      fold: "fold_option (\<lambda>c. update_path n (tag_id c)) (children ?ts1 self) ?ts1 = Some ts'"
      by (simp add: Let_def)
    have P1: "?P ?ts1" using put_same_id_links [OF Suc.prems(1) Some] .
    from fold P1 show ?thesis
    proof (rule fold_option_invariant)
      fix x a b assume "?P a" "update_path n (tag_id x) a = Some b"
      moreover from this Suc.prems(1) have "distinct (map tag_id a)" by simp
      ultimately show "?P b" using Suc.IH by metis
    qed
  qed
qed

lemma update_path_wf_store:
  assumes "wf_store ts" "update_path n i ts = Some ts'"
  shows "wf_store ts'"
proof -
  from assms have "distinct (map tag_id ts)" by (simp add: wf_store_def)
  from update_path_links [OF this assms(2)]
  have "wf_store ts' = wf_store ts" by (intro wf_store_links) simp_all
  with assms(1) show ?thesis by simp
qed

lemma set_map_replace:
  "t \<in> set xs \<Longrightarrow> set (map (\<lambda>u. if u = t then t' else u) xs) = insert t' (set xs - {t})"
  by auto

lemma set_put:
  assumes "distinct (map tag_id ts)" "t \<in> set ts" "tag_id t' = tag_id t"
  shows "set (put t' ts) = insert t' (set ts - {t})"
  unfolding put_as_map [OF assms] using assms(2) by (rule set_map_replace)

lemma put_ids: "map tag_id (put t' ts) = map tag_id ts"
  by (simp add: put_def)

lemma edges_replace:
  assumes "\<And>u. u \<in> S \<Longrightarrow> u \<noteq> t \<Longrightarrow> f u \<noteq> f t" "t \<in> S" "f t' = f t"
  shows "{(f u, p) |u p. u \<in> insert t' (S - {t}) \<and> g u = Some p} =
         ({(f u, p) |u p. u \<in> S \<and> g u = Some p} - {f t} \<times> UNIV) \<union>
         (case g t' of None \<Rightarrow> {} | Some np \<Rightarrow> {(f t, np)})"
  using assms by (auto split: option.splits) metis+

lemma parent_rel_put:
  assumes "distinct (map tag_id ts)" "t \<in> set ts" "tag_id t' = tag_id t"
  shows "parent_rel (put t' ts) =
           (parent_rel ts - {tag_id t} \<times> UNIV) \<union>
           (case parent_id t' of None \<Rightarrow> {} | Some np \<Rightarrow> {(tag_id t, np)})"
proof -
  have other: "u \<in> set ts \<Longrightarrow> u \<noteq> t \<Longrightarrow> tag_id u \<noteq> tag_id t" for u
    using distinct_ids_eq [OF assms(1) _ assms(2)] by blast
  show ?thesis
    unfolding parent_rel_def set_put [OF assms]
    using other assms(2,3) by (rule edges_replace)
qed

lemma acyclic_redirect:
  assumes "acyclic r" "np \<noteq> x" "(np, x) \<notin> r\<^sup>+"
  shows "acyclic (insert (x, np) (r - {x} \<times> UNIV))"
proof -
  let ?r' = "(r - {x} \<times> UNIV)"
  have sub: "?r' \<subseteq> r" by auto
  have "acyclic ?r'" using assms(1) sub by (rule acyclic_subset)
  moreover have "(np, x) \<notin> ?r'\<^sup>*"
  proof
    assume "(np, x) \<in> ?r'\<^sup>*"
    then have "(np, x) \<in> r\<^sup>*" using rtrancl_mono [OF sub] by blast
    with assms(2,3) show False by (auto simp: rtrancl_eq_or_trancl)
  qed
  ultimately show ?thesis by (simp add: acyclic_insert)
qed

lemma move_commit_wf_store:
  assumes wf: "wf_store (tags d)" and t: "t \<in> set (tags d)"
    and np: "case npo of None \<Rightarrow> True
             | Some np \<Rightarrow> np \<noteq> tag_id t \<and> (np, tag_id t) \<notin> (parent_rel (tags d))\<^sup>+"
    and ok: "move_commit limit d t npo new_parent user = Inr d'"
  shows "wf_store (tags d')"
proof -
  let ?t1 = "t\<lparr>parent_id := npo, level := (case new_parent of Some p \<Rightarrow> level p + 1 | None \<Rightarrow> 0)\<rparr>"
  let ?ts1 = "put ?t1 (tags d)"
  from wf have pk: "distinct (map tag_id (tags d))" and ne: "[] \<notin> set (map tag_id (tags d))"
    and fk: "\<forall>u \<in> set (tags d). fk_ok (tags d) (parent_id u)" and ac: "acyclic (parent_rel (tags d))"
    by (simp_all add: wf_store_def)
  from ok have fk1: "fk_ok ?ts1 npo"
    and up: "update_path limit (tag_id t) ?ts1 = Some (tags d')"
    by (auto simp: move_commit_def Let_def record_history_def split: if_splits option.splits)
  have ids: "map tag_id ?ts1 = map tag_id (tags d)" by (rule put_ids)
  have set1: "set ?ts1 = insert ?t1 (set (tags d) - {t})"
    by (rule set_put [OF pk t]) simp
  have rel1: "parent_rel ?ts1 = (parent_rel (tags d) - {tag_id t} \<times> UNIV) \<union>
           (case npo of None \<Rightarrow> {} | Some np \<Rightarrow> {(tag_id t, np)})"
    using parent_rel_put [OF pk t, of ?t1] by simp
  have "acyclic ((parent_rel (tags d) - {tag_id t} \<times> UNIV) \<union>
           (case npo of None \<Rightarrow> {} | Some np \<Rightarrow> {(tag_id t, np)}))"
  proof (cases npo)
    case None
    have "parent_rel (tags d) - {tag_id t} \<times> UNIV \<subseteq> parent_rel (tags d)" by auto
    with ac have "acyclic (parent_rel (tags d) - {tag_id t} \<times> UNIV)" by (rule acyclic_subset)
    with None show ?thesis by simp
  next
    case (Some np')
    with np have "np' \<noteq> tag_id t" "(np', tag_id t) \<notin> (parent_rel (tags d))\<^sup>+" by simp_all
    from acyclic_redirect [OF ac this] Some show ?thesis by simp
  qed
  then have "acyclic (parent_rel ?ts1)" unfolding rel1 .
  moreover have "\<forall>u \<in> set ?ts1. fk_ok ?ts1 (parent_id u)"
  proof
    fix u assume "u \<in> set ?ts1"
    then consider "u = ?t1" | "u \<in> set (tags d)" unfolding set1 by blast
    then show "fk_ok ?ts1 (parent_id u)"
    proof cases
      case 1
      with fk1 show ?thesis by simp
    next
      case 2
      with fk have "fk_ok (tags d) (parent_id u)" by blast
      then show ?thesis unfolding fk_ok_def ids .
    qed
  qed
  ultimately have "wf_store ?ts1" unfolding wf_store_def ids using pk ne by blast
  then show ?thesis using up by (rule update_path_wf_store)
qed

lemma active_by_id_truthy:
  assumes "wf_store ts" "active_by_id ts i = Some t"
  shows "i \<noteq> []"
proof -
  from active_by_id_SomeD [OF assms(2)] have "i \<in> set (map tag_id ts)" by auto
  with assms(1) show ?thesis by (force simp: wf_store_def)
qed

lemma parent_rel_domain: "(a, b) \<in> parent_rel ts \<Longrightarrow> a \<in> set (map tag_id ts)"
  by (auto simp: parent_rel_def)

lemma parent_rel_range:
  "wf_store ts \<Longrightarrow> (a, b) \<in> parent_rel ts \<Longrightarrow> b \<in> set (map tag_id ts)"
  by (force simp: parent_rel_def wf_store_def fk_ok_def)

lemma move_tag_returns:
  assumes wf: "wf_store (tags d)"
  shows "\<exists>r. move_tag limit d i npo user = Some r"
proof (cases "active_by_id (tags d) i")
  case None
  then show ?thesis by (simp add: move_tag_def)
next
  case (Some t)
  show ?thesis
  proof (cases "truthy npo")
    case False
    with Some show ?thesis by (simp add: move_tag_def)
  next
    case True
    show ?thesis
    proof (cases "active_by_id (tags d) (the npo)")
      case None
      with Some True show ?thesis by (simp add: move_tag_def)
    next
      case p: (Some p)
      from active_by_id_SomeD [OF p] have "p \<in> set (tags d)" by simp
      from can_be_parent_of_wf [OF wf this, of t] Some True p show ?thesis
        by (simp add: move_tag_def split: bool.splits)
    qed
  qed
qed

lemma move_tag_wf_store:
  assumes wf: "wf_store (tags d)" and ok: "move_tag limit d i npo user = Some (Inr d')"
  shows "wf_store (tags d')"
proof -
  from ok obtain t where t: "active_by_id (tags d) i = Some t"
    by (auto simp: move_tag_def split: option.splits)
  note T = active_by_id_SomeD [OF t]
  show ?thesis
  proof (cases "truthy npo")
    case False
    with ok t have mc: "move_commit limit d t npo None user = Inr d'"
      by (simp add: move_tag_def)
    have "npo = None"
    proof (rule ccontr)
      assume "npo \<noteq> None"
      with False have npo: "npo = Some []" by (auto simp: truthy_def)
      from wf have "[] \<notin> set (map tag_id (tags d))" by (simp add: wf_store_def)
      then have "\<not> fk_ok (put (t\<lparr>parent_id := npo, level := 0\<rparr>) (tags d)) npo"
        by (simp add: fk_ok_def npo put_ids)
      with mc show False by (simp add: move_commit_def Let_def)
    qed
    then have "case npo of None \<Rightarrow> True
             | Some np \<Rightarrow> np \<noteq> tag_id t \<and> (np, tag_id t) \<notin> (parent_rel (tags d))\<^sup>+"
      by simp
    from move_commit_wf_store [OF wf _ this mc] T show ?thesis by simp
  next
    case True
    then obtain np where npo: "npo = Some np" by (auto simp: truthy_def)
    from ok t True npo obtain p where p: "active_by_id (tags d) np = Some p"
      by (auto simp: move_tag_def split: option.splits)
    note P = active_by_id_SomeD [OF p]
    from P have pin: "p \<in> set (tags d)" by simp
    from ok t True npo p have
      can: "can_be_parent_of (tags d) p t = Some True"
      and mc: "move_commit limit d t npo (Some p) user = Inr d'"
      by (auto simp: move_tag_def split: option.splits bool.splits)
    from can can_be_parent_of_wf [OF wf pin, of t] P T
    have "np \<noteq> tag_id t \<and> (np, tag_id t) \<notin> (parent_rel (tags d))\<^sup>+" by simp
    then have "case npo of None \<Rightarrow> True
             | Some np \<Rightarrow> np \<noteq> tag_id t \<and> (np, tag_id t) \<notin> (parent_rel (tags d))\<^sup>+"
      by (simp add: npo)
    from move_commit_wf_store [OF wf _ this mc] T show ?thesis by simp
  qed
qed

lemma move_tag_rejects_cycle:
  assumes wf: "wf_store (tags d)"
    and t: "active_by_id (tags d) i = Some t" and p: "active_by_id (tags d) np = Some p"
    and cyc: "np = i \<or> (np, i) \<in> (parent_rel (tags d))\<^sup>+"
  shows "move_tag limit d i (Some np) user = Some (Inl CycleRejected)"
proof -
  note T = active_by_id_SomeD [OF t] and P = active_by_id_SomeD [OF p]
  from active_by_id_truthy [OF wf p] have tr: "truthy (Some np)" by (simp add: truthy_def)
  from P have "p \<in> set (tags d)" by simp
  from can_be_parent_of_wf [OF wf this, of t] cyc T P
  have "can_be_parent_of (tags d) p t = Some False" by auto
  with t p tr show ?thesis by (simp add: move_tag_def)
qed

lemma move_tag_never_into_subtree:
  assumes wf: "wf_store (tags d)"
    and cyc: "np = i \<or> (np, i) \<in> (parent_rel (tags d))\<^sup>+"
  shows "\<exists>e. move_tag limit d i (Some np) user = Some (Inl e)"
proof (cases "active_by_id (tags d) i")
  case None
  then show ?thesis by (simp add: move_tag_def)
next
  case (Some t)
  from active_by_id_truthy [OF wf Some] have i: "i \<noteq> []" .
  have "np \<noteq> []"
  proof
    assume "np = []"
    with cyc i have "([], i) \<in> (parent_rel (tags d))\<^sup>+" by simp
    then obtain y where "([], y) \<in> parent_rel (tags d)" by (auto dest: tranclD)
    from parent_rel_domain [OF this] wf show False by (simp add: wf_store_def)
  qed
  then have tr: "truthy (Some np)" by (simp add: truthy_def)
  show ?thesis
  proof (cases "active_by_id (tags d) np")
    case None
    with Some tr show ?thesis by (simp add: move_tag_def)
  next
    case p: (Some p)
    from move_tag_rejects_cycle [OF wf Some p cyc] show ?thesis by blast
  qed
qed

lemma parent_rel_append:
  "parent_rel (ts @ [t]) =
     parent_rel ts \<union> (case parent_id t of None \<Rightarrow> {} | Some p \<Rightarrow> {(tag_id t, p)})"
  by (auto simp: parent_rel_def split: option.splits)

lemma rtrancl_into_fresh:
  assumes "\<And>a b. (a, b) \<in> r \<Longrightarrow> b \<in> S" "n \<notin> S" "p \<in> S"
  shows "(p, n) \<notin> r\<^sup>*"
proof
  assume "(p, n) \<in> r\<^sup>*"
  then show False using assms by (cases rule: rtranclE) auto
qed

lemma append_row_wf_store:
  assumes wf: "wf_store ts" and fresh: "tag_id t \<notin> set (map tag_id ts)" and ne: "tag_id t \<noteq> []"
    and fk: "fk_ok ts (parent_id t)"
  shows "wf_store (ts @ [t])"
proof -
  from wf have pk: "distinct (map tag_id ts)" and e: "[] \<notin> set (map tag_id ts)"
    and fks: "\<forall>u \<in> set ts. fk_ok ts (parent_id u)" and ac: "acyclic (parent_rel ts)"
    by (simp_all add: wf_store_def)
  have 1: "distinct (map tag_id (ts @ [t]))" using pk fresh by simp
  have 2: "[] \<notin> set (map tag_id (ts @ [t]))" using e ne by auto
  have mono: "fk_ok ts po \<Longrightarrow> fk_ok (ts @ [t]) po" for po
    by (auto simp: fk_ok_def split: option.splits)
  have 3: "\<forall>u \<in> set (ts @ [t]). fk_ok (ts @ [t]) (parent_id u)"
    using fks fk mono by auto
  have 4: "acyclic (parent_rel (ts @ [t]))"
  proof (cases "parent_id t")
    case None
    with ac show ?thesis by (simp add: parent_rel_append)
  next
    case (Some p)
    with fk have "p \<in> set (map tag_id ts)" by (simp add: fk_ok_def)
    with parent_rel_range [OF wf] fresh have "(p, tag_id t) \<notin> (parent_rel ts)\<^sup>*"
      by (intro rtrancl_into_fresh [where S = "set (map tag_id ts)"]) blast+
    with ac Some show ?thesis by (simp add: parent_rel_append acyclic_insert)
  qed
  from 1 2 3 4 show ?thesis unfolding wf_store_def by blast
qed

lemma create_tag_InrD:
  assumes "create_tag limit d new_id a = Inr d'"
  obtains t where "tag_id t = new_id" "parent_id t = c_parent_id a"
    "new_id \<notin> set (map tag_id (tags d))" "fk_ok (tags d) (c_parent_id a)"
    "update_path limit new_id (tags d @ [t]) = Some (tags d')"
proof -
  from assms have nm: "\<not> (c_name a = [] \<or> length (strip (c_name a)) = 0)"
    by (auto simp: create_tag_def)
  from assms nm have ex: "active_by_name (tags d) (strip (c_name a)) = None"
    by (auto simp: create_tag_def Let_def split: if_splits)
  define lv where "lv = (if truthy (c_parent_id a)
                then (case active_by_id (tags d) (the (c_parent_id a)) of
                        None \<Rightarrow> Inl ParentNotFound
                      | Some parent_tag \<Rightarrow> Inr (level parent_tag + 1))
                else (Inr 0 :: error + int))"
  from assms nm ex obtain lvl where lvl: "lv = Inr lvl"
    unfolding create_tag_def Let_def lv_def by (cases lv; simp add: lv_def)
  define t where "t = \<lparr>tag_id = new_id, name = strip (c_name a), name_en = Some (c_name_en a),
                         description = Some (c_description a), parent_id = c_parent_id a,
                         level = lvl, path = None, category = Some (c_category a),
                         domain = Some (c_domain a), is_abstract = c_is_abstract a,
                         is_system = False, status = Active, quality_score = 5,
                         usage_count = 0, popularity_score = 0, aliases = c_aliases a,
                         properties = c_properties a, created_by = c_user_id a\<rparr>"
  from assms nm ex lvl have
    rest: "(if \<not> widths_ok t then Inl OperationFailed
                 else if new_id \<in> set (map tag_id (tags d)) \<or> \<not> fk_ok (tags d) (c_parent_id a)
                   then Inl IntegrityFailure
                 else case update_path limit new_id (tags d @ [t]) of
                        None \<Rightarrow> Inl OperationFailed
                      | Some ts \<Rightarrow>
                          if \<not> paths_ok ts then Inl OperationFailed
                          else Inr (record_history new_id ''create'' (c_user_id a) (d\<lparr>tags := ts\<rparr>)))
           = Inr d'"
    unfolding create_tag_def Let_def lv_def [symmetric] t_def by simp
  then have "new_id \<notin> set (map tag_id (tags d))" "fk_ok (tags d) (c_parent_id a)"
    by (auto split: if_splits)
  moreover from rest this have "update_path limit new_id (tags d @ [t]) = Some (tags d')"
    by (auto split: if_splits option.splits simp: record_history_def)
  moreover have "tag_id t = new_id" "parent_id t = c_parent_id a" by (simp_all add: t_def)
  ultimately show ?thesis using that by blast
qed

lemma create_tag_wf_store:
  assumes wf: "wf_store (tags d)" and ne: "new_id \<noteq> []"
    and ok: "create_tag limit d new_id a = Inr d'"
  shows "wf_store (tags d')"
proof -
  from ok obtain t where t: "tag_id t = new_id" "parent_id t = c_parent_id a"
    "new_id \<notin> set (map tag_id (tags d))" "fk_ok (tags d) (c_parent_id a)"
    "update_path limit new_id (tags d @ [t]) = Some (tags d')"
    by (rule create_tag_InrD)
  have "wf_store (tags d @ [t])"
    using wf t(3,4) ne by (intro append_row_wf_store) (simp_all add: t(1,2))
  then show ?thesis using t(5) by (rule update_path_wf_store)
qed

subsection \<open>No tag is its own ancestor\<close>

lemma run_op_wf_store:
  assumes wf: "wf_store (tags d)"
    and id: "case o1 of Create i a \<Rightarrow> i \<noteq> [] | Move i p u \<Rightarrow> True"
  shows "\<exists>d'. run_op limit o1 d = Some d' \<and> wf_store (tags d')"
proof (cases o1)
  case (Create i a)
  show ?thesis
  proof (cases "create_tag limit d i a")
    case (Inl e)
    with Create wf show ?thesis by (simp add: run_op_def)
  next
    case (Inr d')
    from create_tag_wf_store [OF wf _ Inr] id Create have "wf_store (tags d')" by simp
    with Create Inr show ?thesis by (simp add: run_op_def)
  qed
next
  case (Move i p u)
  from move_tag_returns [OF wf] obtain r where r: "move_tag limit d i p u = Some r" by blast
  show ?thesis
  proof (cases r)
    case (Inl e)
    with Move r wf show ?thesis by (simp add: run_op_def)
  next
    case (Inr d')
    with r move_tag_wf_store [OF wf] have "wf_store (tags d')" by blast
    with Move r Inr show ?thesis by (simp add: run_op_def)
  qed
qed

lemma run_ops_wf_store:
  "wf_store (tags d) \<Longrightarrow> generated_ids_ok ops \<Longrightarrow>
   \<exists>d'. run_ops limit ops d = Some d' \<and> wf_store (tags d')"
proof (induction ops arbitrary: d)
  case Nil
  then show ?case by (simp add: run_ops_def)
next
  case (Cons o1 ops)
  from Cons.prems(2) have id: "case o1 of Create i a \<Rightarrow> i \<noteq> [] | Move i p u \<Rightarrow> True"
    and rest: "generated_ids_ok ops"
    by (simp_all add: generated_ids_ok_def)
  from run_op_wf_store [OF Cons.prems(1) id] obtain d1 where
    d1: "run_op limit o1 d = Some d1" "wf_store (tags d1)" by blast
  from Cons.IH [OF d1(2) rest] obtain d' where
    "run_ops limit ops d1 = Some d'" "wf_store (tags d')" by blast
  with d1(1) show ?case by (simp add: run_ops_def)
qed

text \<open>
  C3. From a table that satisfies the invariant (in particular the empty one), every
  sequence of create and move operations runs to its end and leaves a table in which no
  tag is its own ancestor: the walk up from every tag ends and does not meet the tag.
  And in such a table a move of \<open>i\<close> under \<open>np\<close> fails whenever \<open>np\<close> is \<open>i\<close> or a
  descendant of \<open>i\<close> (\<open>i\<close> is reached from \<open>np\<close> along the parent pointers); when both
  ids resolve to active tags the failure is the one of the cycle check, which
  \<^verbatim>\<open>can_be_parent_of\<close> makes by walking the ancestors of \<open>np\<close> before anything is
  written.
\<close>

theorem no_tag_becomes_its_own_ancestor:
  assumes wf: "wf_store (tags d)" and ids: "generated_ids_ok ops"
  shows "(\<exists>d'. run_ops limit ops d = Some d' \<and> wf_store (tags d') \<and> no_self_ancestor (tags d')) \<and>
         (np = i \<or> (np, i) \<in> (parent_rel (tags d))\<^sup>+ \<longrightarrow>
            (\<exists>e. move_tag limit d i (Some np) user = Some (Inl e)) \<and>
            (active_by_id (tags d) i \<noteq> None \<and> active_by_id (tags d) np \<noteq> None \<longrightarrow>
               move_tag limit d i (Some np) user = Some (Inl CycleRejected)))"
proof -
  from run_ops_wf_store [OF wf ids] obtain d' where
    "run_ops limit ops d = Some d'" "wf_store (tags d')" by blast
  moreover from this have "no_self_ancestor (tags d')" by (intro wf_store_no_self_ancestor)
  ultimately have 1: "\<exists>d'. run_ops limit ops d = Some d' \<and> wf_store (tags d') \<and> no_self_ancestor (tags d')"
    by blast
  have 2: "(\<exists>e. move_tag limit d i (Some np) user = Some (Inl e)) \<and>
            (active_by_id (tags d) i \<noteq> None \<and> active_by_id (tags d) np \<noteq> None \<longrightarrow>
               move_tag limit d i (Some np) user = Some (Inl CycleRejected))"
    if cyc: "np = i \<or> (np, i) \<in> (parent_rel (tags d))\<^sup>+"
    using move_tag_never_into_subtree [OF wf cyc] move_tag_rejects_cycle [OF wf _ _ cyc] by auto
  from 1 2 show ?thesis by blast
qed

lemma wf_store_empty: "wf_store (tags empty_db)"
  by (simp add: wf_store_def empty_db_def parent_rel_def acyclic_def)

text \<open>
  The scenario of the specification, from the empty table: after the two creates and
  the two moves of \<open>Cat\<close>, moving \<open>Animal\<close> under \<open>Cat\<close> is refused as a cycle, and
  so is moving \<open>Animal\<close> under itself.
\<close>

theorem no_tag_becomes_its_own_ancestor_witness:
  "wf_store (tags empty_db) \<and> generated_ids_ok scenario_ops \<and>
   run_ops 100 scenario_ops empty_db = Some scenario_db \<and>
   wf_store (tags scenario_db) \<and> no_self_ancestor (tags scenario_db) \<and>
   (''i2'', ''i1'') \<in> (parent_rel (tags scenario_db))\<^sup>+ \<and>
   move_tag 100 scenario_db ''i1'' (Some ''i2'') ''u1'' = Some (Inl CycleRejected) \<and>
   move_tag 100 scenario_db ''i1'' (Some ''i1'') ''u1'' = Some (Inl CycleRejected)"
proof -
  have ids: "generated_ids_ok scenario_ops"
    by (simp add: generated_ids_ok_def scenario_ops_def)
  have run: "run_ops 100 scenario_ops empty_db = Some scenario_db"
    by code_simp
  from no_tag_becomes_its_own_ancestor [OF wf_store_empty ids, of 100] run
  have wf: "wf_store (tags scenario_db)" and nsa: "no_self_ancestor (tags scenario_db)"
    by simp_all
  have "(''i2'', ''i1'') \<in> parent_rel (tags scenario_db)"
    by (force simp: parent_rel_def scenario_db_def example_tag_def)
  then have edge: "(''i2'', ''i1'') \<in> (parent_rel (tags scenario_db))\<^sup>+" by (rule r_into_trancl)
  have act: "active_by_id (tags scenario_db) ''i1'' \<noteq> None" "active_by_id (tags scenario_db) ''i2'' \<noteq> None"
    by (simp_all add: active_by_id_def scenario_db_def example_tag_def)
  have ids0: "generated_ids_ok []" by (simp add: generated_ids_ok_def)
  from no_tag_becomes_its_own_ancestor [OF wf ids0, of 100 "''i2''" "''i1''" "''u1''"] edge act
  have m1: "move_tag 100 scenario_db ''i1'' (Some ''i2'') ''u1'' = Some (Inl CycleRejected)" by blast
  from no_tag_becomes_its_own_ancestor [OF wf ids0, of 100 "''i1''" "''i1''" "''u1''"] act
  have m2: "move_tag 100 scenario_db ''i1'' (Some ''i1'') ''u1'' = Some (Inl CycleRejected)" by blast
  from wf_store_empty ids run wf nsa edge m1 m2 show ?thesis by blast
qed

subsection \<open>The usage count after any merge\<close>

lemma find_put_same:
  "find (\<lambda>u. tag_id u = i) ts = Some t \<Longrightarrow> tag_id t' = i \<Longrightarrow>
   find (\<lambda>u. tag_id u = i) (put t' ts) = Some t'"
  by (induction ts) (auto simp: put_def split: if_splits)

lemma find_put_other:
  "tag_id t' \<noteq> i \<Longrightarrow> find (\<lambda>u. tag_id u = i) (put t' ts) = find (\<lambda>u. tag_id u = i) ts"
  by (induction ts) (auto simp: put_def)

lemma active_by_id_find:
  assumes "distinct (map tag_id ts)" "active_by_id ts i = Some t"
  shows "find (\<lambda>u. tag_id u = i) ts = Some t"
proof -
  note T = active_by_id_SomeD [OF assms(2)]
  from T have "i \<in> set (map tag_id ts)" by auto
  from find_by_id [OF this] obtain u where u: "find (\<lambda>u. tag_id u = i) ts = Some u"
    "u \<in> set ts" "tag_id u = i" by blast
  with distinct_ids_eq [OF assms(1) u(2), of t] T have "u = t" by simp
  with u(1) show ?thesis by simp
qed

text \<open>
  The count of C1 in general: whenever a merge succeeds, the target ends with the sum of
  the two usage counts and one more.
\<close>

lemma merge_tags_usage_count:
  assumes pk: "distinct (map tag_id (tags d))" and ok: "merge_tags d src tgt user = Inr d'"
  shows "\<exists>s0 t0 t'. active_by_id (tags d) src = Some s0 \<and> active_by_id (tags d) tgt = Some t0 \<and>
           find (\<lambda>u. tag_id u = tgt) (tags d') = Some t' \<and>
           usage_count t' = usage_count t0 + usage_count s0 + 1"
proof -
  from ok obtain s0 t0 s1 t2 where
    s0: "active_by_id (tags d) src = Some s0" and t0: "active_by_id (tags d) tgt = Some t0"
    and ne: "tag_id s0 \<noteq> tag_id t0"
    and s1: "s1 = s0\<lparr>status := Merged, properties := merged_properties tgt (properties s0)\<rparr>"
    and t2: "t2 = (if aliases s0 \<noteq> []
              then (increment_usage (t0\<lparr>usage_count := usage_count t0 + usage_count s0\<rparr>))
                     \<lparr>aliases := remdups (aliases t0 @ aliases s0)\<rparr>
              else increment_usage (t0\<lparr>usage_count := usage_count t0 + usage_count s0\<rparr>))"
    and d': "tags d' = put s1 (put t2 (tags d))"
    by (elim merge_tags_InrD) blast
  note S = active_by_id_SomeD [OF s0] and T = active_by_id_SomeD [OF t0]
  have idt2: "tag_id t2 = tgt" using T by (simp add: t2 increment_usage_def Let_def)
  have ids1: "tag_id s1 \<noteq> tgt" using S T ne by (simp add: s1)
  have u: "usage_count t2 = usage_count t0 + usage_count s0 + 1"
    by (simp add: t2 increment_usage_def Let_def)
  have "find (\<lambda>u. tag_id u = tgt) (put t2 (tags d)) = Some t2"
    using active_by_id_find [OF pk t0] idt2 by (rule find_put_same)
  then have "find (\<lambda>u. tag_id u = tgt) (tags d') = Some t2"
    unfolding d' using ids1 by (simp add: find_put_other)
  with s0 t0 u show ?thesis by blast
qed

end
